theory Spec2Isabelle
  imports Main
begin

section \<open>Python values used by maze\_game.py\<close>

text \<open>
  The three exceptions the program can raise: an out-of-range list index, a missing
  dictionary key, and the \<open>StopIteration\<close> that \<open>handle_win_input\<close> raises to quit.
\<close>

datatype error = IndexError | KeyError | StopIteration

type_synonym cell = "int \<times> int"
type_synonym grid = "int list list"

text \<open>
  Python list indexing: an index \<open>i\<close> with \<open>-len \<le> i < len\<close> is valid, a negative one
  counts from the end, anything else raises \<open>IndexError\<close>.
\<close>

definition py_index :: "'a list \<Rightarrow> int \<Rightarrow> error + nat" where
  "py_index xs i =
     (let n = int (length xs); j = (if i < 0 then n + i else i)
      in if 0 \<le> j \<and> j < n then Inr (nat j) else Inl IndexError)"

text \<open>\<open>grid[y][x]\<close> and \<open>grid[y][x] = v\<close>. The rows are separate lists (built by a
  nested comprehension), so a write changes one row only.\<close>

definition grid_get :: "grid \<Rightarrow> int \<Rightarrow> int \<Rightarrow> error + int" where
  "grid_get g y x =
     (case py_index g y of
        Inl e \<Rightarrow> Inl e
      | Inr r \<Rightarrow> (case py_index (g ! r) x of
                   Inl e \<Rightarrow> Inl e
                 | Inr c \<Rightarrow> Inr (g ! r ! c)))"

definition grid_set :: "grid \<Rightarrow> int \<Rightarrow> int \<Rightarrow> int \<Rightarrow> error + grid" where
  "grid_set g y x v =
     (case py_index g y of
        Inl e \<Rightarrow> Inl e
      | Inr r \<Rightarrow> (case py_index (g ! r) x of
                   Inl e \<Rightarrow> Inl e
                 | Inr c \<Rightarrow> Inr (g[r := (g ! r)[c := v]])))"

subsection \<open>The ambient random generator\<close>

text \<open>
  The program draws from the module-level generator of Python's \<open>random\<close>. Its state is
  modelled as the infinite tape of the draws still to come; \<open>randbelow n\<close> takes the next
  draw, reduced below \<open>n\<close>. \<open>shuffle\<close> is the standard library's Fisher-Yates loop
  \<^verbatim>\<open>for i in reversed(range(1, len(x))): j = randbelow(i + 1); x[i], x[j] = x[j], x[i]\<close>.
\<close>

type_synonym rng = "nat \<Rightarrow> nat"

definition randbelow :: "nat \<Rightarrow> rng \<Rightarrow> nat \<times> rng" where
  "randbelow n r = (r 0 mod n, \<lambda>i. r (Suc i))"

fun shuffle_from :: "nat \<Rightarrow> 'a list \<Rightarrow> rng \<Rightarrow> 'a list \<times> rng" where
  "shuffle_from 0 xs r = (xs, r)"
| "shuffle_from (Suc i) xs r =
     (case randbelow (Suc i + 1) r of
        (j, r') \<Rightarrow> shuffle_from i (xs[Suc i := xs ! j, j := xs ! Suc i]) r')"

definition shuffle :: "'a list \<Rightarrow> rng \<Rightarrow> 'a list \<times> rng" where
  "shuffle xs r = shuffle_from (length xs - 1) xs r"

section \<open>class Maze\<close>

record maze =
  width :: int
  height :: int
  grid :: grid

subsection \<open>\_generate\<close>

text \<open>
  The \<open>for dx, dy in directions\<close> loop of one iteration: the first direction whose
  target is inside the border and still a wall is carved (target and midpoint set to 0)
  and the loop is left by \<open>break\<close>. The result is \<open>None\<close> when nothing was carved,
  otherwise the new grid and the cell pushed.
\<close>

fun try_dirs :: "int \<Rightarrow> int \<Rightarrow> grid \<Rightarrow> cell \<Rightarrow> cell list \<Rightarrow> error + (grid \<times> cell) option" where
  "try_dirs w h g (x, y) [] = Inr None"
| "try_dirs w h g (x, y) ((dx, dy) # ds) =
     (let nx = x + dx; ny = y + dy in
      if 1 \<le> nx \<and> nx < w - 1 \<and> 1 \<le> ny \<and> ny < h - 1 then
        (case grid_get g ny nx of
           Inl e \<Rightarrow> Inl e
         | Inr v \<Rightarrow>
             if v = 1 then
               (case grid_set g ny nx 0 of
                  Inl e \<Rightarrow> Inl e
                | Inr g1 \<Rightarrow>
                    (case grid_set g1 (y + dy div 2) (x + dx div 2) 0 of
                       Inl e \<Rightarrow> Inl e
                     | Inr g2 \<Rightarrow> Inr (Some (g2, (nx, ny)))))
             else try_dirs w h g (x, y) ds)
      else try_dirs w h g (x, y) ds)"

text \<open>Number of wall cells (value 1) of a grid; it bounds the number of carvings.\<close>

definition walls :: "grid \<Rightarrow> nat" where
  "walls g = sum_list (map (\<lambda>row. count_list row 1) g)"

lemma count_list_update:
  "i < length xs \<Longrightarrow>
   count_list (xs[i := v]) a + (if xs ! i = a then 1 else 0)
     = count_list xs a + (if v = a then 1 else 0)"
proof (induction xs arbitrary: i)
  case Nil
  then show ?case by simp
next
  case (Cons x xs)
  show ?case
  proof (cases i)
    case 0
    then show ?thesis by simp
  next
    case (Suc k)
    with Cons.prems have "k < length xs" by simp
    from Cons.IH[OF this] Suc show ?thesis by (auto split: if_splits)
  qed
qed

lemma sum_list_map_update:
  fixes f :: "'a \<Rightarrow> nat"
  shows "i < length xs \<Longrightarrow>
    sum_list (map f (xs[i := v])) + f (xs ! i) = sum_list (map f xs) + f v"
proof (induction xs arbitrary: i)
  case Nil
  then show ?case by simp
next
  case (Cons x xs)
  then show ?case by (cases i) auto
qed

lemma py_index_less: "py_index xs i = Inr k \<Longrightarrow> k < length xs"
  by (auto simp: py_index_def Let_def split: if_splits)

lemma walls_grid_set:
  assumes "grid_set g y x v = Inr g'" and "grid_get g y x = Inr u"
  shows "walls g' + (if u = 1 then 1 else 0) = walls g + (if v = 1 then 1 else 0)"
proof -
  from assms obtain r c where r: "py_index g y = Inr r" and c: "py_index (g ! r) x = Inr c"
    and g': "g' = g[r := (g ! r)[c := v]]" and u: "u = g ! r ! c"
    by (auto simp: grid_set_def grid_get_def split: sum.splits)
  have rl: "r < length g" and cl: "c < length (g ! r)"
    using r c by (auto dest: py_index_less)
  have "count_list ((g ! r)[c := v]) 1 + (if u = 1 then 1 else 0)
          = count_list (g ! r) 1 + (if v = 1 then 1 else 0)"
    unfolding u using count_list_update[OF cl, of v 1] by simp
  moreover have "walls g' + count_list (g ! r) 1 = walls g + count_list ((g ! r)[c := v]) 1"
    unfolding walls_def g' using sum_list_map_update[OF rl, of "\<lambda>row. count_list row 1"] by simp
  ultimately show ?thesis by linarith
qed

lemma grid_set_get_defined:
  "grid_set g y x v = Inr g' \<Longrightarrow> \<exists>u. grid_get g y x = Inr u"
  by (auto simp: grid_set_def grid_get_def split: sum.splits)

lemma walls_grid_set_zero_le: "grid_set g y x 0 = Inr g' \<Longrightarrow> walls g' \<le> walls g"
proof -
  assume a: "grid_set g y x 0 = Inr g'"
  then obtain u where "grid_get g y x = Inr u" using grid_set_get_defined by blast
  from walls_grid_set[OF a this] show ?thesis by (simp split: if_splits)
qed

lemma try_dirs_walls:
  "try_dirs w h g c ds = Inr (Some (g', n)) \<Longrightarrow> walls g' < walls g"
proof (induction w h g c ds rule: try_dirs.induct)
  case (1 w h g x y)
  then show ?case by simp
next
  case (2 w h g x y dx dy ds)
  show ?case
  proof (cases "1 \<le> x + dx \<and> x + dx < w - 1 \<and> 1 \<le> y + dy \<and> y + dy < h - 1
                 \<and> grid_get g (y + dy) (x + dx) = Inr 1")
    case True
    with "2.prems" obtain g1 where g1: "grid_set g (y + dy) (x + dx) 0 = Inr g1"
      and g2: "grid_set g1 (y + dy div 2) (x + dx div 2) 0 = Inr g'"
      by (auto simp: Let_def split: sum.splits)
    from True have "grid_get g (y + dy) (x + dx) = Inr 1" by simp
    from walls_grid_set[OF g1 this] have "walls g1 < walls g" by simp
    with walls_grid_set_zero_le[OF g2] show ?thesis by simp
  next
    case False
    with "2.prems" have rest: "try_dirs w h g (x, y) ds = Inr (Some (g', n))"
      by (auto simp: Let_def split: sum.splits if_splits)
    show ?thesis
    proof (cases "1 \<le> x + dx \<and> x + dx < w - 1 \<and> 1 \<le> y + dy \<and> y + dy < h - 1")
      case True
      with False "2.prems" obtain v where "grid_get g (y + dy) (x + dx) = Inr v" "v \<noteq> 1"
        by (auto simp: Let_def split: sum.splits if_splits)
      from "2.IH"(1)[OF refl refl True this rest] show ?thesis .
    next
      case False
      from "2.IH"(2)[OF refl refl False rest] show ?thesis .
    qed
  qed
qed

text \<open>
  The \<open>while stack\<close> loop. The Python list \<open>stack\<close> is kept with its last element (the top)
  at the head. \<open>directions\<close> is shuffled in place at every iteration, so the shuffled list
  is carried to the next one.
\<close>

function gen_loop :: "int \<Rightarrow> int \<Rightarrow> grid \<Rightarrow> cell list \<Rightarrow> cell list \<Rightarrow> rng \<Rightarrow> error + (grid \<times> rng)" where
  "gen_loop w h g [] dirs r = Inr (g, r)"
| "gen_loop w h g (c # rest) dirs r =
     (case try_dirs w h g c (fst (shuffle dirs r)) of
        Inl e \<Rightarrow> Inl e
      | Inr None \<Rightarrow> gen_loop w h g rest (fst (shuffle dirs r)) (snd (shuffle dirs r))
      | Inr (Some (g', n)) \<Rightarrow>
          gen_loop w h g' (n # c # rest) (fst (shuffle dirs r)) (snd (shuffle dirs r)))"
  by pat_completeness auto
termination
  by (relation "measures [\<lambda>(w, h, g, st, dirs, r). walls g, \<lambda>(w, h, g, st, dirs, r). length st]")
     (auto dest: try_dirs_walls)

definition generate :: "maze \<Rightarrow> rng \<Rightarrow> error + (maze \<times> rng)" where
  "generate m r =
     (case grid_set (grid m) 1 1 0 of
        Inl e \<Rightarrow> Inl e
      | Inr g0 \<Rightarrow>
          (case gen_loop (width m) (height m) g0 [(1, 1)] [(0, -2), (0, 2), (2, 0), (-2, 0)] r of
             Inl e \<Rightarrow> Inl e
           | Inr (g, r') \<Rightarrow> Inr (m\<lparr>grid := g\<rparr>, r')))"

subsection \<open>\_\_init\_\_\<close>

definition Maze_init :: "int \<Rightarrow> int \<Rightarrow> rng \<Rightarrow> error + (maze \<times> rng)" where
  "Maze_init w0 h0 r =
     (let w = (if w0 mod 2 = 0 then w0 + 1 else w0);
          h = (if h0 mod 2 = 0 then h0 + 1 else h0)
      in generate \<lparr>width = w, height = h,
                   grid = replicate (nat h) (replicate (nat w) 1)\<rparr> r)"

subsection \<open>neighbors\<close>

text \<open>
  The generator \<open>neighbors\<close> yields the passage cells among the four candidates, in the
  order N, S, E, W; its consumer runs it to the end, so it is modelled by the list of what
  it yields (or by the exception of the first grid read that fails).
\<close>

fun neighbors_from :: "maze \<Rightarrow> int \<Rightarrow> int \<Rightarrow> cell list \<Rightarrow> error + cell list" where
  "neighbors_from m x y [] = Inr []"
| "neighbors_from m x y ((dx, dy) # ds) =
     (let nx = x + dx; ny = y + dy in
      if 0 \<le> nx \<and> nx < width m \<and> 0 \<le> ny \<and> ny < height m then
        (case grid_get (grid m) ny nx of
           Inl e \<Rightarrow> Inl e
         | Inr v \<Rightarrow>
             (case neighbors_from m x y ds of
                Inl e \<Rightarrow> Inl e
              | Inr rest \<Rightarrow> Inr (if v = 0 then (nx, ny) # rest else rest)))
      else neighbors_from m x y ds)"

definition neighbors :: "maze \<Rightarrow> int \<Rightarrow> int \<Rightarrow> error + cell list" where
  "neighbors m x y = neighbors_from m x y [(0, -1), (0, 1), (1, 0), (-1, 0)]"

subsection \<open>solve\<close>

text \<open>
  The dictionary \<open>predecessors\<close> is an association list in insertion order (a Python
  dict keeps it): \<open>solve\<close> only ever adds keys that are absent, so an insertion appends.
  The value \<open>None\<close> is the start cell's "no predecessor". The deque is a list with its
  left end at the head.
\<close>

type_synonym preds = "(cell \<times> cell option) list"

fun visit :: "preds \<Rightarrow> cell list \<Rightarrow> cell \<Rightarrow> cell list \<Rightarrow> preds \<times> cell list" where
  "visit P q cur [] = (P, q)"
| "visit P q cur (n # ns) =
     (if map_of P n = None then visit (P @ [(n, Some cur)]) (q @ [n]) cur ns
      else visit P q cur ns)"

definition cells_of :: "maze \<Rightarrow> cell set" where
  "cells_of m = {0 ..< width m} \<times> {0 ..< height m}"

lemma finite_cells_of: "finite (cells_of m)"
  by (simp add: cells_of_def)

lemma neighbors_from_in_grid:
  "neighbors_from m x y ds = Inr ns \<Longrightarrow> set ns \<subseteq> cells_of m"
proof (induction ds arbitrary: ns)
  case Nil
  then show ?case by simp
next
  case (Cons d ds)
  obtain dx dy where d: "d = (dx, dy)" by (cases d)
  from Cons.prems show ?case
    unfolding d
    by (auto simp: Let_def cells_of_def split: if_splits sum.splits dest!: Cons.IH)
qed

lemma visit_dom_mono: "visit P q cur ns = (P', q') \<Longrightarrow> dom (map_of P) \<subseteq> dom (map_of P')"
proof (induction ns arbitrary: P q)
  case Nil
  then show ?case by simp
next
  case (Cons n ns)
  show ?case
  proof (cases "map_of P n = None")
    case True
    with Cons.prems have "visit (P @ [(n, Some cur)]) (q @ [n]) cur ns = (P', q')" by simp
    from Cons.IH[OF this] show ?thesis by (auto simp: dom_def)
  next
    case False
    with Cons.prems have "visit P q cur ns = (P', q')" by simp
    from Cons.IH[OF this] show ?thesis .
  qed
qed

lemma visit_progress:
  "visit P q cur ns = (P', q') \<Longrightarrow>
     (P' = P \<and> q' = q) \<or> (\<exists>n \<in> set ns. n \<notin> dom (map_of P) \<and> n \<in> dom (map_of P'))"
proof (induction ns arbitrary: P q)
  case Nil
  then show ?case by simp
next
  case (Cons n ns)
  show ?case
  proof (cases "map_of P n = None")
    case True
    with Cons.prems have v: "visit (P @ [(n, Some cur)]) (q @ [n]) cur ns = (P', q')" by simp
    have "n \<in> dom (map_of (P @ [(n, Some cur)]))" by (simp add: dom_def)
    with visit_dom_mono[OF v] have "n \<in> dom (map_of P')" by blast
    moreover from True have "n \<notin> dom (map_of P)" by (simp add: dom_def)
    ultimately show ?thesis by auto
  next
    case False
    with Cons.prems have "visit P q cur ns = (P', q')" by simp
    from Cons.IH[OF this] show ?thesis by auto
  qed
qed

lemma visit_measure:
  assumes "visit P q cur ns = (P', q')" and "set ns \<subseteq> cells_of m"
  shows "card (cells_of m - dom (map_of P')) < card (cells_of m - dom (map_of P))
         \<or> (card (cells_of m - dom (map_of P')) = card (cells_of m - dom (map_of P)) \<and> q' = q)"
proof -
  from visit_progress[OF assms(1)] show ?thesis
  proof
    assume "P' = P \<and> q' = q"
    then show ?thesis by simp
  next
    assume "\<exists>n \<in> set ns. n \<notin> dom (map_of P) \<and> n \<in> dom (map_of P')"
    then obtain n where n: "n \<in> set ns" "n \<notin> dom (map_of P)" "n \<in> dom (map_of P')" by blast
    with assms(2) have "n \<in> cells_of m - dom (map_of P)" "n \<notin> cells_of m - dom (map_of P')"
      by auto
    moreover from visit_dom_mono[OF assms(1)]
    have "cells_of m - dom (map_of P') \<subseteq> cells_of m - dom (map_of P)" by blast
    ultimately have "cells_of m - dom (map_of P') \<subset> cells_of m - dom (map_of P)" by blast
    then have "card (cells_of m - dom (map_of P')) < card (cells_of m - dom (map_of P))"
      by (intro psubset_card_mono) (simp_all add: finite_cells_of)
    then show ?thesis by simp
  qed
qed

function solve_loop :: "maze \<Rightarrow> cell \<Rightarrow> cell list \<Rightarrow> preds \<Rightarrow> error + preds" where
  "solve_loop m goal [] P = Inr P"
| "solve_loop m goal (current # q) P =
     (if current = goal then Inr P
      else (case neighbors m (fst current) (snd current) of
              Inl e \<Rightarrow> Inl e
            | Inr ns \<Rightarrow> solve_loop m goal (snd (visit P q current ns))
                                          (fst (visit P q current ns))))"
  by pat_completeness auto
termination
proof (relation "measures [\<lambda>(m, goal, q, P). card (cells_of m - dom (map_of P)),
                           \<lambda>(m, goal, q, P). length q]", goal_cases)
  case 1
  then show ?case by simp
next
  case (2 m goal current q P ns)
  then have "neighbors m (fst current) (snd current) = Inr ns" by simp
  then have "set ns \<subseteq> cells_of m"
    unfolding neighbors_def by (rule neighbors_from_in_grid)
  from visit_measure[OF surjective_pairing this, of P q current]
  show ?case by auto
qed

definition solve :: "maze \<Rightarrow> cell \<Rightarrow> cell \<Rightarrow> error + preds" where
  "solve m start goal =
     (case solve_loop m goal [start] [(start, None)] of
        Inl e \<Rightarrow> Inl e
      | Inr P \<Rightarrow> Inr (if map_of P goal \<noteq> None then P else []))"

subsection \<open>reconstruct\_path\<close>

text \<open>
  The loop follows the predecessor chain until it meets the value \<open>None\<close>. On a dictionary
  with a cycle it never ends, and on one that lacks a key of the chain it raises
  \<open>KeyError\<close>; the result \<open>None\<close> of the model is the run that does not return.
\<close>

partial_function (option) walk_back :: "preds \<Rightarrow> cell option \<Rightarrow> cell list \<Rightarrow> (error + cell list) option" where
  "walk_back P current path =
     (case current of
        None \<Rightarrow> Some (Inr path)
      | Some c \<Rightarrow>
          (case map_of P c of
             None \<Rightarrow> Some (Inl KeyError)
           | Some nxt \<Rightarrow> walk_back P nxt (path @ [c])))"

declare walk_back.simps [code]

definition reconstruct_path :: "preds \<Rightarrow> cell \<Rightarrow> (error + cell list) option" where
  "reconstruct_path P goal = map_option (map_sum id rev) (walk_back P (Some goal) [])"

section \<open>class MazeGame\<close>

text \<open>
  The curses window is the program's terminal: drawing has no effect on the game, and
  \<open>getch\<close> is modelled by the list of the keys still to be typed. A \<open>getch\<close> on the
  empty list waits; the outcome then records where the program waits: in
  \<open>handle_input\<close> (playing) or in \<open>handle_win_input\<close> (the win screen).
\<close>

record game =
  maze :: maze
  player_pos :: cell
  goal_pos :: cell
  show_solution :: bool
  solution_path :: "cell list"

datatype phase = Playing | Won

datatype 'a outcome =
    Returned 'a game rng "int list"
  | Raised error
  | Waiting phase game rng

text \<open>The key codes of curses and the character codes \<open>ord\<close> gives.\<close>

definition KEY_DOWN :: int where "KEY_DOWN = 258"
definition KEY_UP :: int where "KEY_UP = 259"
definition KEY_LEFT :: int where "KEY_LEFT = 260"
definition KEY_RIGHT :: int where "KEY_RIGHT = 261"

definition keymap :: "int \<Rightarrow> cell option" where
  "keymap key =
     (if key = KEY_UP then Some (0, -1)
      else if key = KEY_DOWN then Some (0, 1)
      else if key = KEY_LEFT then Some (-1, 0)
      else if key = KEY_RIGHT then Some (1, 0)
      else None)"

text \<open>
  The two statements
  \<^verbatim>\<open>preds = self.maze.solve(self.player_pos, self.goal_pos)\<close> and
  \<^verbatim>\<open>self.solution_path = (self.maze.reconstruct_path(preds, self.goal_pos) if preds else [])\<close>,
  which the source repeats in four places.
\<close>

definition solution_for :: "maze \<Rightarrow> cell \<Rightarrow> cell \<Rightarrow> (error + cell list) option" where
  "solution_for m player goal =
     (case solve m player goal of
        Inl e \<Rightarrow> Some (Inl e)
      | Inr P \<Rightarrow> if P \<noteq> [] then reconstruct_path P goal else Some (Inr []))"

definition MazeGame_init :: "int \<Rightarrow> int \<Rightarrow> rng \<Rightarrow> (error + game \<times> rng) option" where
  "MazeGame_init w0 h0 r =
     (case Maze_init w0 h0 r of
        Inl e \<Rightarrow> Some (Inl e)
      | Inr (m, r') \<Rightarrow>
          (case solution_for m (1, 1) (width m - 2, height m - 2) of
             None \<Rightarrow> None
           | Some (Inl e) \<Rightarrow> Some (Inl e)
           | Some (Inr p) \<Rightarrow>
               Some (Inr (\<lparr>maze = m, player_pos = (1, 1),
                            goal_pos = (width m - 2, height m - 2),
                            show_solution = False, solution_path = p\<rparr>, r'))))"

text \<open>The "new maze" block, the same in \<open>handle_input\<close> and in \<open>handle_win_input\<close>.\<close>

definition new_maze :: "game \<Rightarrow> rng \<Rightarrow> (error + game \<times> rng) option" where
  "new_maze g r =
     (case Maze_init (width (maze g)) (height (maze g)) r of
        Inl e \<Rightarrow> Some (Inl e)
      | Inr (m, r') \<Rightarrow>
          (case solution_for m (1, 1) (width m - 2, height m - 2) of
             None \<Rightarrow> None
           | Some (Inl e) \<Rightarrow> Some (Inl e)
           | Some (Inr p) \<Rightarrow>
               Some (Inr (g\<lparr>maze := m, player_pos := (1, 1),
                            goal_pos := (width m - 2, height m - 2),
                            solution_path := p, show_solution := False\<rparr>, r'))))"

fun handle_win_input :: "int list \<Rightarrow> game \<Rightarrow> rng \<Rightarrow> unit outcome option" where
  "handle_win_input [] g r = Some (Waiting Won g r)"
| "handle_win_input (key # ks) g r =
     (if key = 113 \<or> key = 81 then Some (Raised StopIteration)
      else if key = 110 \<or> key = 78 then
        (case new_maze g r of
           None \<Rightarrow> None
         | Some (Inl e) \<Rightarrow> Some (Raised e)
         | Some (Inr (g', r')) \<Rightarrow> Some (Returned () g' r' ks))
      else handle_win_input ks g r)"

text \<open>The end of \<open>handle_input\<close>: the win check, then \<open>return True\<close>.\<close>

definition check_win :: "int list \<Rightarrow> game \<Rightarrow> rng \<Rightarrow> bool outcome option" where
  "check_win ks g r =
     (if player_pos g = goal_pos g then
        (case handle_win_input ks g r of
           None \<Rightarrow> None
         | Some (Returned u g' r' ks') \<Rightarrow> Some (Returned True g' r' ks')
         | Some (Raised e) \<Rightarrow> Some (Raised e)
         | Some (Waiting ph g' r') \<Rightarrow> Some (Waiting ph g' r'))
      else Some (Returned True g r ks))"

definition handle_input :: "int list \<Rightarrow> game \<Rightarrow> rng \<Rightarrow> bool outcome option" where
  "handle_input keys g r =
     (case keys of
        [] \<Rightarrow> Some (Waiting Playing g r)
      | key # ks \<Rightarrow>
          (case keymap key of
             Some (dx, dy) \<Rightarrow>
               (let new_x = fst (player_pos g) + dx; new_y = snd (player_pos g) + dy in
                case grid_get (grid (maze g)) new_y new_x of
                  Inl e \<Rightarrow> Some (Raised e)
                | Inr v \<Rightarrow>
                    if v = 0 then
                      (case solution_for (maze g) (new_x, new_y) (goal_pos g) of
                         None \<Rightarrow> None
                       | Some (Inl e) \<Rightarrow> Some (Raised e)
                       | Some (Inr p) \<Rightarrow>
                           check_win ks (g\<lparr>player_pos := (new_x, new_y), solution_path := p\<rparr>) r)
                    else check_win ks g r)
           | None \<Rightarrow>
               if key = 113 \<or> key = 81 then Some (Returned False g r ks)
               else if key = 115 \<or> key = 83 then
                 check_win ks (g\<lparr>show_solution := \<not> show_solution g\<rparr>) r
               else if key = 110 \<or> key = 78 then
                 (case new_maze g r of
                    None \<Rightarrow> None
                  | Some (Inl e) \<Rightarrow> Some (Raised e)
                  | Some (Inr (g', r')) \<Rightarrow> check_win ks g' r')
               else check_win ks g r))"

section \<open>Paths in the passage graph\<close>

text \<open>
  The graph the specification speaks of: its vertices are cells, two cells are adjacent when
  they differ by one step in one of the four directions. A walk in a set \<open>V\<close> of cells is a
  non-empty list of cells of \<open>V\<close> whose consecutive cells are adjacent; a simple path visits
  no cell twice. Every adjacency is counted once in \<open>edges_of\<close>, from the cell on its left
  or above. A tree is a finite set with one vertex more than edges in which any two vertices
  are joined by exactly one simple path.
\<close>

definition adjacent :: "cell \<Rightarrow> cell \<Rightarrow> bool" where
  "adjacent a b \<longleftrightarrow> \<bar>fst a - fst b\<bar> + \<bar>snd a - snd b\<bar> = 1"

definition walk_in :: "cell set \<Rightarrow> cell list \<Rightarrow> bool" where
  "walk_in V p \<longleftrightarrow> p \<noteq> [] \<and> set p \<subseteq> V \<and> successively adjacent p"

definition simple_path :: "cell set \<Rightarrow> cell \<Rightarrow> cell \<Rightarrow> cell list \<Rightarrow> bool" where
  "simple_path V a b p \<longleftrightarrow> walk_in V p \<and> distinct p \<and> hd p = a \<and> last p = b"

definition edges_of :: "cell set \<Rightarrow> (cell \<times> cell) set" where
  "edges_of V = {(a, b). a \<in> V \<and> b \<in> V \<and> (b = (fst a + 1, snd a) \<or> b = (fst a, snd a + 1))}"

definition tree :: "cell set \<Rightarrow> bool" where
  "tree V \<longleftrightarrow> finite V \<and> card V = card (edges_of V) + 1 \<and>
              (\<forall>a \<in> V. \<forall>b \<in> V. \<exists>!p. simple_path V a b p)"

lemma adjacent_sym: "adjacent a b \<Longrightarrow> adjacent b a"
  by (simp add: adjacent_def abs_minus_commute)

lemma adjacent_irrefl: "\<not> adjacent a a"
  by (simp add: adjacent_def)

lemma adjacent_flip: "(\<lambda>x y. adjacent y x) = adjacent"
  by (intro ext) (auto dest: adjacent_sym)

lemma walk_in_rev: "walk_in V (rev p) \<longleftrightarrow> walk_in V p"
  unfolding walk_in_def successively_rev adjacent_flip by simp

lemma simple_path_rev:
  assumes "simple_path V a b p"
  shows "simple_path V b a (rev p)"
proof -
  from assms have "walk_in V (rev p)" by (simp add: simple_path_def walk_in_rev)
  moreover from assms have "p \<noteq> []" by (auto simp: simple_path_def walk_in_def)
  ultimately show ?thesis using assms by (simp add: simple_path_def hd_rev last_rev)
qed

lemma unique_path_sym:
  assumes "\<exists>!p. simple_path V a b p"
  shows "\<exists>!p. simple_path V b a p"
proof -
  from assms obtain p where p: "simple_path V a b p"
    and u: "\<And>q. simple_path V a b q \<Longrightarrow> q = p" by blast
  show ?thesis
  proof (rule ex1I)
    show "simple_path V b a (rev p)" using p by (rule simple_path_rev)
  next
    fix q assume "simple_path V b a q"
    then have "simple_path V a b (rev q)" by (rule simple_path_rev)
    then have "rev q = p" by (rule u)
    then show "q = rev p" by auto
  qed
qed

lemma walk_in_mono: "walk_in V p \<Longrightarrow> V \<subseteq> W \<Longrightarrow> walk_in W p"
  by (auto simp: walk_in_def)

text \<open>A vertex with one neighbour only is an end of every simple path through it.\<close>

lemma leaf_at_end:
  assumes w: "walk_in (insert v V) p" and d: "distinct p" and vp: "v \<in> set p"
    and only: "\<And>x. x \<in> V \<Longrightarrow> adjacent x v \<Longrightarrow> x = u"
  shows "hd p = v \<or> last p = v"
proof (rule ccontr)
  assume n: "\<not> (hd p = v \<or> last p = v)"
  from vp obtain xs ys where p: "p = xs @ v # ys" by (auto dest: split_list)
  from n p have "xs \<noteq> []" by (cases xs) auto
  then obtain xs' a where xs: "xs = xs' @ [a]" by (cases xs rule: rev_cases) auto
  from n p have "ys \<noteq> []" by auto
  then obtain b ys' where ys: "ys = b # ys'" by (cases ys) auto
  from w have s: "successively adjacent (xs' @ [a] @ v # b # ys')" and sub: "set p \<subseteq> insert v V"
    by (auto simp: walk_in_def p xs ys)
  from s have "adjacent a v" "adjacent v b"
    by (auto simp: successively_append_iff successively_Cons)
  moreover from d have "a \<noteq> v" "b \<noteq> v" "a \<noteq> b" by (auto simp: p xs ys)
  moreover from sub have "a \<in> insert v V" "b \<in> insert v V" by (auto simp: p xs ys)
  ultimately have "a = u" "b = u" using only adjacent_sym by blast+
  with \<open>a \<noteq> b\<close> show False by simp
qed

lemma walk_avoiding:
  "walk_in (insert v V) p \<Longrightarrow> v \<notin> set p \<Longrightarrow> walk_in V p"
  by (auto simp: walk_in_def)

lemma distinct_hd_last: "distinct p \<Longrightarrow> p \<noteq> [] \<Longrightarrow> hd p = last p \<Longrightarrow> p = [hd p]"
  by (cases p) (auto split: if_splits)

lemma simple_path_loop: "simple_path V a a p \<longleftrightarrow> a \<in> V \<and> p = [a]"
proof
  assume s: "simple_path V a a p"
  then have "p = [hd p]" by (intro distinct_hd_last) (auto simp: simple_path_def walk_in_def)
  with s show "a \<in> V \<and> p = [a]" by (cases p) (auto simp: simple_path_def walk_in_def)
next
  assume "a \<in> V \<and> p = [a]"
  then show "simple_path V a a p" by (simp add: simple_path_def walk_in_def)
qed

text \<open>Simple paths that start at a leaf are the leaf followed by a simple path from its
  neighbour.\<close>

lemma simple_path_from_leaf:
  assumes v: "v \<notin> V" and u: "u \<in> V" and uv: "adjacent u v"
    and only: "\<And>x. x \<in> V \<Longrightarrow> adjacent x v \<Longrightarrow> x = u"
    and b: "b \<in> V"
  shows "simple_path (insert v V) v b p \<longleftrightarrow> (\<exists>q. p = v # q \<and> simple_path V u b q)"
proof
  assume s: "simple_path (insert v V) v b p"
  then obtain q where p: "p = v # q" by (cases p) (auto simp: simple_path_def walk_in_def)
  from s b v have "q \<noteq> []" by (auto simp: p simple_path_def)
  from s have vq: "v \<notin> set q" and dq: "distinct q" by (auto simp: p simple_path_def)
  from s have "walk_in (insert v V) q" and a: "adjacent v (hd q)"
    using \<open>q \<noteq> []\<close> by (cases q; auto simp: p simple_path_def walk_in_def)+
  with vq have wq: "walk_in V q" by (auto intro: walk_avoiding)
  then have "hd q \<in> V" by (auto simp: walk_in_def \<open>q \<noteq> []\<close>)
  with a only adjacent_sym have "hd q = u" by blast
  moreover from s \<open>q \<noteq> []\<close> have "last q = b" by (auto simp: p simple_path_def)
  ultimately show "\<exists>q. p = v # q \<and> simple_path V u b q"
    using p wq dq by (auto simp: simple_path_def)
next
  assume "\<exists>q. p = v # q \<and> simple_path V u b q"
  then obtain q where p: "p = v # q" and q: "simple_path V u b q" by blast
  then have "q \<noteq> []" "set q \<subseteq> V" by (auto simp: simple_path_def walk_in_def)
  with q v uv show "simple_path (insert v V) v b p"
    by (cases q) (auto simp: p simple_path_def walk_in_def dest: adjacent_sym)
qed

lemma simple_path_avoids_leaf:
  assumes v: "v \<notin> V" and only: "\<And>x. x \<in> V \<Longrightarrow> adjacent x v \<Longrightarrow> x = u"
    and a: "a \<in> V" and b: "b \<in> V"
  shows "simple_path (insert v V) a b p \<longleftrightarrow> simple_path V a b p"
proof
  assume s: "simple_path (insert v V) a b p"
  have "v \<notin> set p"
  proof
    assume "v \<in> set p"
    with s only have "hd p = v \<or> last p = v"
      by (intro leaf_at_end[where V = V and u = u]) (auto simp: simple_path_def)
    with s a b v show False by (auto simp: simple_path_def)
  qed
  with s show "simple_path V a b p" by (auto simp: simple_path_def intro: walk_avoiding)
next
  assume "simple_path V a b p"
  then show "simple_path (insert v V) a b p"
    by (auto simp: simple_path_def intro: walk_in_mono)
qed

lemma unique_paths_add_leaf:
  assumes t: "\<forall>a \<in> V. \<forall>b \<in> V. \<exists>!p. simple_path V a b p"
    and v: "v \<notin> V" and u: "u \<in> V" and uv: "adjacent u v"
    and only: "\<And>x. x \<in> V \<Longrightarrow> adjacent x v \<Longrightarrow> x = u"
  shows "\<forall>a \<in> insert v V. \<forall>b \<in> insert v V. \<exists>!p. simple_path (insert v V) a b p"
proof (intro ballI)
  fix a b assume a: "a \<in> insert v V" and b: "b \<in> insert v V"
  have from_leaf: "\<exists>!p. simple_path (insert v V) v c p" if c: "c \<in> V" for c
  proof -
    from t u c obtain q where q: "simple_path V u c q"
      and uq: "\<And>q'. simple_path V u c q' \<Longrightarrow> q' = q" by blast
    show ?thesis
    proof (rule ex1I)
      show "simple_path (insert v V) v c (v # q)"
        using q by (simp add: simple_path_from_leaf[OF v u uv only c])
    next
      fix p assume "simple_path (insert v V) v c p"
      then obtain q' where "p = v # q'" "simple_path V u c q'"
        by (auto simp: simple_path_from_leaf[OF v u uv only c])
      with uq show "p = v # q" by simp
    qed
  qed
  consider "a = v" "b = v" | "a = v" "b \<in> V" | "a \<in> V" "b = v" | "a \<in> V" "b \<in> V"
    using a b by blast
  then show "\<exists>!p. simple_path (insert v V) a b p"
  proof cases
    case 1
    then show ?thesis by (simp add: simple_path_loop)
  next
    case 2
    then show ?thesis using from_leaf by simp
  next
    case 3
    then show ?thesis using from_leaf unique_path_sym by simp
  next
    case 4
    then show ?thesis using t by (simp add: simple_path_avoids_leaf[OF v only])
  qed
qed

lemma edges_of_adjacent: "(a, b) \<in> edges_of V \<Longrightarrow> adjacent a b"
  by (cases a; cases b) (auto simp: edges_of_def adjacent_def)

lemma edges_add_leaf:
  assumes v: "v \<notin> V" and u: "u \<in> V" and uv: "adjacent u v"
    and only: "\<And>x. x \<in> V \<Longrightarrow> adjacent x v \<Longrightarrow> x = u"
  shows "\<exists>e. e \<notin> edges_of V \<and> edges_of (insert v V) = insert e (edges_of V)"
proof -
  have cases: "v = (fst u + 1, snd u) \<or> v = (fst u, snd u + 1)
             \<or> u = (fst v + 1, snd v) \<or> u = (fst v, snd v + 1)"
    using uv by (cases u; cases v) (auto simp: adjacent_def)
  have new: "(a, b) \<in> edges_of (insert v V) \<Longrightarrow> (a, b) \<notin> edges_of V \<Longrightarrow>
              (a = u \<and> b = v) \<or> (a = v \<and> b = u)" for a b
  proof -
    assume e: "(a, b) \<in> edges_of (insert v V)" and ne: "(a, b) \<notin> edges_of V"
    then have ab: "adjacent a b" by (auto dest: edges_of_adjacent)
    from e ne have "a = v \<or> b = v" by (auto simp: edges_of_def)
    then show ?thesis
    proof
      assume "a = v"
      with ab have "b \<noteq> v" using adjacent_irrefl[of v] by blast
      with e have "b \<in> V" by (auto simp: edges_of_def)
      with ab \<open>a = v\<close> only adjacent_sym have "b = u" by blast
      with \<open>a = v\<close> show ?thesis by simp
    next
      assume "b = v"
      with ab have "a \<noteq> v" using adjacent_irrefl[of v] by blast
      with e have "a \<in> V" by (auto simp: edges_of_def)
      with ab \<open>b = v\<close> only have "a = u" by blast
      with \<open>b = v\<close> show ?thesis by simp
    qed
  qed
  have mono: "edges_of V \<subseteq> edges_of (insert v V)" by (auto simp: edges_of_def)
  have notin: "(u, v) \<notin> edges_of V" "(v, u) \<notin> edges_of V" using v by (auto simp: edges_of_def)
  from cases consider "v = (fst u + 1, snd u) \<or> v = (fst u, snd u + 1)"
    | "u = (fst v + 1, snd v) \<or> u = (fst v, snd v + 1)" by blast
  then show ?thesis
  proof cases
    case 1
    then have in1: "(u, v) \<in> edges_of (insert v V)" using u by (auto simp: edges_of_def)
    from 1 have out: "(v, u) \<notin> edges_of (insert v V)"
      by (cases u; cases v) (auto simp: edges_of_def)
    have "edges_of (insert v V) = insert (u, v) (edges_of V)"
    proof (intro equalityI subsetI)
      fix e assume e: "e \<in> edges_of (insert v V)"
      obtain a b where ab: "e = (a, b)" by (cases e)
      show "e \<in> insert (u, v) (edges_of V)"
      proof (cases "e \<in> edges_of V")
        case True
        then show ?thesis by simp
      next
        case False
        with e new[of a b] ab have "e = (u, v) \<or> e = (v, u)" by blast
        with e out show ?thesis by auto
      qed
    next
      fix e assume "e \<in> insert (u, v) (edges_of V)"
      with in1 mono show "e \<in> edges_of (insert v V)" by auto
    qed
    with notin show ?thesis by (intro exI[of _ "(u, v)"]) simp
  next
    case 2
    then have in1: "(v, u) \<in> edges_of (insert v V)" using u by (auto simp: edges_of_def)
    from 2 have out: "(u, v) \<notin> edges_of (insert v V)"
      by (cases u; cases v) (auto simp: edges_of_def)
    have "edges_of (insert v V) = insert (v, u) (edges_of V)"
    proof (intro equalityI subsetI)
      fix e assume e: "e \<in> edges_of (insert v V)"
      obtain a b where ab: "e = (a, b)" by (cases e)
      show "e \<in> insert (v, u) (edges_of V)"
      proof (cases "e \<in> edges_of V")
        case True
        then show ?thesis by simp
      next
        case False
        with e new[of a b] ab have "e = (v, u) \<or> e = (u, v)" by blast
        with e out show ?thesis by auto
      qed
    next
      fix e assume "e \<in> insert (v, u) (edges_of V)"
      with in1 mono show "e \<in> edges_of (insert v V)" by auto
    qed
    with notin show ?thesis by (intro exI[of _ "(v, u)"]) simp
  qed
qed

lemma finite_edges_of: "finite V \<Longrightarrow> finite (edges_of V)"
  by (rule finite_subset[of _ "V \<times> V"]) (auto simp: edges_of_def)

lemma tree_add_leaf:
  assumes t: "tree V" and v: "v \<notin> V" and u: "u \<in> V" and uv: "adjacent u v"
    and only: "\<And>x. x \<in> V \<Longrightarrow> adjacent x v \<Longrightarrow> x = u"
  shows "tree (insert v V)"
proof -
  from t have fin: "finite V" and c: "card V = card (edges_of V) + 1"
    and p: "\<forall>a \<in> V. \<forall>b \<in> V. \<exists>!p. simple_path V a b p" by (auto simp: tree_def)
  from edges_add_leaf[OF v u uv only] obtain e where
    e: "e \<notin> edges_of V" "edges_of (insert v V) = insert e (edges_of V)" by blast
  have "card (insert v V) = card (edges_of (insert v V)) + 1"
    using fin v c e finite_edges_of[OF fin] by simp
  with fin unique_paths_add_leaf[OF p v u uv only] show ?thesis
    by (simp add: tree_def)
qed

lemma edges_of_single: "edges_of {c} = {}"
  by (cases c) (auto simp: edges_of_def)

lemma tree_single: "tree {c}"
  by (simp add: tree_def edges_of_single simple_path_loop)

section \<open>What the generator maintains\<close>

text \<open>
  A grid is well formed for a width and a height when it has that many rows of that many
  cells. The passage cells of a grid are the in-range cells that hold 0. The carving loop
  keeps them in the "room structure": they lie inside the border, no passage has two even
  coordinates, and a passage with an even coordinate (a door) lies between two passage rooms.
\<close>

definition grid_ok :: "int \<Rightarrow> int \<Rightarrow> grid \<Rightarrow> bool" where
  "grid_ok w h g \<longleftrightarrow> int (length g) = h \<and> (\<forall>row \<in> set g. int (length row) = w)"

definition in_grid :: "int \<Rightarrow> int \<Rightarrow> cell \<Rightarrow> bool" where
  "in_grid w h c \<longleftrightarrow> 0 \<le> fst c \<and> fst c < w \<and> 0 \<le> snd c \<and> snd c < h"

definition interior :: "int \<Rightarrow> int \<Rightarrow> cell \<Rightarrow> bool" where
  "interior w h c \<longleftrightarrow> 1 \<le> fst c \<and> fst c < w - 1 \<and> 1 \<le> snd c \<and> snd c < h - 1"

definition cell_at :: "grid \<Rightarrow> cell \<Rightarrow> error + int" where
  "cell_at g c = grid_get g (snd c) (fst c)"

definition pcells :: "int \<Rightarrow> int \<Rightarrow> grid \<Rightarrow> cell set" where
  "pcells w h g = {c. in_grid w h c \<and> cell_at g c = Inr 0}"

lemma interior_in_grid: "interior w h c \<Longrightarrow> in_grid w h c"
  by (auto simp: interior_def in_grid_def)

lemma py_index_in_range: "0 \<le> i \<Longrightarrow> i < int (length xs) \<Longrightarrow> py_index xs i = Inr (nat i)"
  by (simp add: py_index_def Let_def)

lemma cell_at_ok:
  assumes "grid_ok w h g" and "in_grid w h c"
  shows "cell_at g c = Inr (g ! nat (snd c) ! nat (fst c))"
proof -
  from assms have y: "0 \<le> snd c" "snd c < int (length g)"
    by (auto simp: grid_ok_def in_grid_def)
  then have "g ! nat (snd c) \<in> set g" by simp
  with assms have x: "0 \<le> fst c" "fst c < int (length (g ! nat (snd c)))"
    by (auto simp: grid_ok_def in_grid_def)
  show ?thesis
    by (simp add: cell_at_def grid_get_def py_index_in_range[OF y] py_index_in_range[OF x])
qed

lemma grid_set_ok:
  assumes ok: "grid_ok w h g" and c: "in_grid w h c"
  shows "\<exists>g'. grid_set g (snd c) (fst c) v = Inr g' \<and> grid_ok w h g' \<and>
          (\<forall>c'. in_grid w h c' \<longrightarrow> cell_at g' c' = (if c' = c then Inr v else cell_at g c'))"
proof -
  define y where "y = nat (snd c)"
  define x where "x = nat (fst c)"
  define g' where "g' = g[y := (g ! y)[x := v]]"
  from ok c have y: "0 \<le> snd c" "snd c < int (length g)"
    by (auto simp: grid_ok_def in_grid_def)
  then have "g ! nat (snd c) \<in> set g" by simp
  with ok c have x: "0 \<le> fst c" "fst c < int (length (g ! nat (snd c)))"
    by (auto simp: grid_ok_def in_grid_def)
  have set: "grid_set g (snd c) (fst c) v = Inr g'"
    by (simp add: grid_set_def py_index_in_range[OF y] py_index_in_range[OF x] g'_def y_def x_def)
  have ok': "grid_ok w h g'"
  proof -
    have "set g' \<subseteq> insert ((g ! y)[x := v]) (set g)"
      unfolding g'_def by (rule set_update_subset_insert)
    moreover have "int (length ((g ! y)[x := v])) = w"
      using ok \<open>g ! nat (snd c) \<in> set g\<close> by (simp add: grid_ok_def y_def)
    ultimately show ?thesis using ok by (auto simp: grid_ok_def g'_def)
  qed
  have "cell_at g' c' = (if c' = c then Inr v else cell_at g c')" if c': "in_grid w h c'" for c'
  proof -
    from c' ok have yl: "nat (snd c') < length g"
      by (auto simp: grid_ok_def in_grid_def)
    then have "g ! nat (snd c') \<in> set g" by simp
    with c' ok have xl: "nat (fst c') < length (g ! nat (snd c'))"
      by (auto simp: grid_ok_def in_grid_def)
    from c' c have eq: "c' = c \<longleftrightarrow> nat (snd c') = y \<and> nat (fst c') = x"
      by (auto simp: in_grid_def y_def x_def prod_eq_iff)
    show ?thesis
      unfolding cell_at_ok[OF ok' c'] cell_at_ok[OF ok c'] eq
      using yl xl by (cases "nat (snd c') = y") (auto simp: g'_def nth_list_update)
  qed
  with set ok' show ?thesis by blast
qed

definition DIRS :: "cell set" where
  "DIRS = {(0, -2), (0, 2), (2, 0), (-2, 0)}"

lemma try_dirs_carve:
  assumes ok: "grid_ok w h g" and c: "interior w h (x, y)" and ds: "set ds \<subseteq> DIRS"
  shows "try_dirs w h g (x, y) ds = Inr None \<or>
     (\<exists>dx dy g'. (dx, dy) \<in> set ds \<and>
        try_dirs w h g (x, y) ds = Inr (Some (g', (x + dx, y + dy))) \<and>
        interior w h (x + dx, y + dy) \<and> cell_at g (x + dx, y + dy) = Inr 1 \<and>
        grid_ok w h g' \<and>
        (\<forall>c'. in_grid w h c' \<longrightarrow>
           cell_at g' c' = (if c' = (x + dx, y + dy) \<or> c' = (x + dx div 2, y + dy div 2)
                            then Inr 0 else cell_at g c')))"
  using ds
proof (induction ds)
  case Nil
  then show ?case by simp
next
  case (Cons d ds)
  obtain dx dy where d: "d = (dx, dy)" by (cases d)
  from Cons.prems have dD: "(dx, dy) \<in> DIRS" and rest: "set ds \<subseteq> DIRS" by (auto simp: d)
  note IH = Cons.IH[OF rest]
  show ?case
  proof (cases "1 \<le> x + dx \<and> x + dx < w - 1 \<and> 1 \<le> y + dy \<and> y + dy < h - 1")
    case False
    then have "try_dirs w h g (x, y) (d # ds) = try_dirs w h g (x, y) ds"
      by (auto simp: d Let_def)
    with IH show ?thesis by auto
  next
    case True
    then have n_int: "interior w h (x + dx, y + dy)" by (simp add: interior_def)
    then have n_in: "in_grid w h (x + dx, y + dy)" by (rule interior_in_grid)
    from cell_at_ok[OF ok n_in] obtain v where v: "cell_at g (x + dx, y + dy) = Inr v" by blast
    then have gv: "grid_get g (y + dy) (x + dx) = Inr v" by (simp add: cell_at_def)
    show ?thesis
    proof (cases "v = 1")
      case False
      with True gv have "try_dirs w h g (x, y) (d # ds) = try_dirs w h g (x, y) ds"
        by (simp add: d Let_def)
      with IH show ?thesis by auto
    next
      case v1: True
      from grid_set_ok[OF ok n_in, of 0] obtain g1 where
        g1: "grid_set g (y + dy) (x + dx) 0 = Inr g1" and ok1: "grid_ok w h g1"
        and at1: "\<And>c'. in_grid w h c' \<Longrightarrow>
                  cell_at g1 c' = (if c' = (x + dx, y + dy) then Inr 0 else cell_at g c')"
        by auto
      from dD c have m_in: "in_grid w h (x + dx div 2, y + dy div 2)"
        by (auto simp: DIRS_def interior_def in_grid_def)
      from grid_set_ok[OF ok1 m_in, of 0] obtain g2 where
        g2: "grid_set g1 (y + dy div 2) (x + dx div 2) 0 = Inr g2" and ok2: "grid_ok w h g2"
        and at2: "\<And>c'. in_grid w h c' \<Longrightarrow>
                  cell_at g2 c' = (if c' = (x + dx div 2, y + dy div 2) then Inr 0 else cell_at g1 c')"
        by auto
      have "try_dirs w h g (x, y) (d # ds) = Inr (Some (g2, (x + dx, y + dy)))"
        using True gv v1 g1 g2 by (simp add: d Let_def)
      moreover have "\<forall>c'. in_grid w h c' \<longrightarrow>
           cell_at g2 c' = (if c' = (x + dx, y + dy) \<or> c' = (x + dx div 2, y + dy div 2)
                            then Inr 0 else cell_at g c')"
        using at1 at2 by simp
      ultimately show ?thesis using n_int v v1 ok2 by (auto simp: d)
    qed
  qed
qed

definition room_struct :: "int \<Rightarrow> int \<Rightarrow> cell set \<Rightarrow> bool" where
  "room_struct w h V \<longleftrightarrow>
     (\<forall>c \<in> V. interior w h c \<and> (odd (fst c) \<or> odd (snd c))) \<and>
     (\<forall>c \<in> V. even (fst c) \<longrightarrow> (fst c - 1, snd c) \<in> V \<and> (fst c + 1, snd c) \<in> V) \<and>
     (\<forall>c \<in> V. even (snd c) \<longrightarrow> (fst c, snd c - 1) \<in> V \<and> (fst c, snd c + 1) \<in> V)"

lemma room_structD1: "room_struct w h V \<Longrightarrow> (a, b) \<in> V \<Longrightarrow> interior w h (a, b) \<and> (odd a \<or> odd b)"
  by (auto simp: room_struct_def)

lemma room_structD2: "room_struct w h V \<Longrightarrow> (a, b) \<in> V \<Longrightarrow> even a \<Longrightarrow> (a - 1, b) \<in> V \<and> (a + 1, b) \<in> V"
  by (auto simp: room_struct_def)

lemma room_structD3: "room_struct w h V \<Longrightarrow> (a, b) \<in> V \<Longrightarrow> even b \<Longrightarrow> (a, b - 1) \<in> V \<and> (a, b + 1) \<in> V"
  by (auto simp: room_struct_def)

lemma adjacent_cases:
  "adjacent (a, b) (p, q) \<longleftrightarrow>
     (a = p + 1 \<and> b = q) \<or> (a = p - 1 \<and> b = q) \<or> (a = p \<and> b = q + 1) \<or> (a = p \<and> b = q - 1)"
  by (auto simp: adjacent_def)

lemma carve_tree:
  assumes rs: "room_struct w h V" and t: "tree V"
    and c: "(x, y) \<in> V" and ox: "odd x" and oy: "odd y"
    and u: "(hx = 0 \<and> (hy = 1 \<or> hy = -1)) \<or> (hy = 0 \<and> (hx = 1 \<or> hx = -1))"
    and nV: "(x + 2 * hx, y + 2 * hy) \<notin> V"
  shows "tree (insert (x + 2 * hx, y + 2 * hy) (insert (x + hx, y + hy) V))"
proof -
  let ?m = "(x + hx, y + hy)" and ?n = "(x + 2 * hx, y + 2 * hy)"
  have mV: "?m \<notin> V"
  proof
    assume m: "?m \<in> V"
    from u show False
    proof
      assume h: "hx = 0 \<and> (hy = 1 \<or> hy = -1)"
      with oy have "even (y + hy)" by auto
      from room_structD3[OF rs m this] h nV show False by (auto simp: algebra_simps)
    next
      assume h: "hy = 0 \<and> (hx = 1 \<or> hx = -1)"
      with ox have "even (x + hx)" by auto
      from room_structD2[OF rs m this] h nV show False by (auto simp: algebra_simps)
    qed
  qed
  have adj_cm: "adjacent (x, y) ?m" using u by (auto simp: adjacent_def)
  have only_m: "a = (x, y)" if a: "a \<in> V" and adj: "adjacent a ?m" for a
  proof -
    obtain p q where pq: "a = (p, q)" by (cases a)
    from room_structD1[OF rs a[unfolded pq]] have par: "odd p \<or> odd q" by simp
    from a nV have ne: "(p, q) \<noteq> ?n" by (auto simp: pq)
    from adj[unfolded pq adjacent_cases] u ox oy par ne show ?thesis
      unfolding pq by auto
  qed
  have t1: "tree (insert ?m V)"
    by (rule tree_add_leaf[OF t mV c adj_cm only_m])
  have n1: "?n \<notin> insert ?m V" using nV u by auto
  have adj_mn: "adjacent ?m ?n" using u by (auto simp: adjacent_def)
  have only_n: "a = ?m" if a: "a \<in> insert ?m V" and adj: "adjacent a ?n" for a
  proof (rule ccontr)
    assume "a \<noteq> ?m"
    with a have aV: "a \<in> V" by simp
    obtain p q where pq: "a = (p, q)" by (cases a)
    from ox oy u have on: "odd (x + 2 * hx)" "odd (y + 2 * hy)" by auto
    from adj[unfolded pq adjacent_cases] consider
      "even p" "q = y + 2 * hy" "p - 1 = x + 2 * hx \<or> p + 1 = x + 2 * hx"
      | "even q" "p = x + 2 * hx" "q - 1 = y + 2 * hy \<or> q + 1 = y + 2 * hy"
      using on by auto
    then show False
    proof cases
      case 1
      from room_structD2[OF rs aV[unfolded pq] 1(1)] 1(2,3) nV show False by (auto simp: algebra_simps)
    next
      case 2
      from room_structD3[OF rs aV[unfolded pq] 2(1)] 2(2,3) nV show False by (auto simp: algebra_simps)
    qed
  qed
  show ?thesis
    by (rule tree_add_leaf[OF t1 n1 _ adj_mn only_n]) simp
qed

lemma carve_room_struct:
  assumes rs: "room_struct w h V"
    and c: "(x, y) \<in> V" and ox: "odd x" and oy: "odd y"
    and u: "(hx = 0 \<and> (hy = 1 \<or> hy = -1)) \<or> (hy = 0 \<and> (hx = 1 \<or> hx = -1))"
    and ni: "interior w h (x + 2 * hx, y + 2 * hy)"
  shows "room_struct w h (insert (x + 2 * hx, y + 2 * hy) (insert (x + hx, y + hy) V))"
proof -
  let ?m = "(x + hx, y + hy)" and ?n = "(x + 2 * hx, y + 2 * hy)"
  let ?V = "insert ?n (insert ?m V)"
  from room_structD1[OF rs c] have ci: "interior w h (x, y)" by simp
  from ox oy u have on: "odd (x + 2 * hx)" "odd (y + 2 * hy)" by auto
  have mi: "interior w h ?m" using ci ni u by (auto simp: interior_def)
  have mp: "odd (x + hx) \<or> odd (y + hy)" using u ox oy by auto
  have p1: "\<forall>c \<in> ?V. interior w h c \<and> (odd (fst c) \<or> odd (snd c))"
    using rs ni on mi mp by (auto simp: room_struct_def)
  have p2: "\<forall>c \<in> ?V. even (fst c) \<longrightarrow> (fst c - 1, snd c) \<in> ?V \<and> (fst c + 1, snd c) \<in> ?V"
  proof (intro ballI impI)
    fix a assume a: "a \<in> ?V" and e: "even (fst a)"
    from a on e consider "a = ?m" | "a \<in> V" by auto
    then show "(fst a - 1, snd a) \<in> ?V \<and> (fst a + 1, snd a) \<in> ?V"
    proof cases
      case 1
      with e ox u have "hy = 0 \<and> (hx = 1 \<or> hx = -1)" by auto
      with 1 c show ?thesis by auto
    next
      case 2
      with rs e show ?thesis by (auto simp: room_struct_def)
    qed
  qed
  have p3: "\<forall>c \<in> ?V. even (snd c) \<longrightarrow> (fst c, snd c - 1) \<in> ?V \<and> (fst c, snd c + 1) \<in> ?V"
  proof (intro ballI impI)
    fix a assume a: "a \<in> ?V" and e: "even (snd a)"
    from a on e consider "a = ?m" | "a \<in> V" by auto
    then show "(fst a, snd a - 1) \<in> ?V \<and> (fst a, snd a + 1) \<in> ?V"
    proof cases
      case 1
      with e oy u have "hx = 0 \<and> (hy = 1 \<or> hy = -1)" by auto
      with 1 c show ?thesis by auto
    next
      case 2
      with rs e show ?thesis by (auto simp: room_struct_def)
    qed
  qed
  from p1 p2 p3 show ?thesis unfolding room_struct_def by blast
qed

lemma shuffle_from_set: "i < length xs \<Longrightarrow> set (fst (shuffle_from i xs r)) = set xs"
proof (induction i arbitrary: xs r)
  case 0
  then show ?case by simp
next
  case (Suc i)
  define j where "j = r 0 mod (Suc i + 1)"
  have "j < Suc i + 1" unfolding j_def by (rule mod_less_divisor) simp
  with Suc.prems have j: "j < length xs" by simp
  let ?xs = "xs[Suc i := xs ! j, j := xs ! Suc i]"
  have "set ?xs = set xs" using Suc.prems j by simp
  moreover have "i < length ?xs" using Suc.prems by simp
  ultimately have "set (fst (shuffle_from i ?xs r')) = set xs" for r'
    using Suc.IH[of ?xs r'] by simp
  then show ?case by (simp add: randbelow_def j_def)
qed

lemma shuffle_set: "set (fst (shuffle xs r)) = set xs"
proof (cases xs)
  case Nil
  then show ?thesis by (simp add: shuffle_def)
next
  case (Cons a list)
  then have "length xs - 1 < length xs" by simp
  then show ?thesis unfolding shuffle_def by (rule shuffle_from_set)
qed

definition gen_inv :: "int \<Rightarrow> int \<Rightarrow> grid \<Rightarrow> cell list \<Rightarrow> bool" where
  "gen_inv w h g st \<longleftrightarrow>
     grid_ok w h g \<and>
     (\<forall>c. in_grid w h c \<longrightarrow> cell_at g c = Inr 0 \<or> cell_at g c = Inr 1) \<and>
     (\<forall>c \<in> set st. c \<in> pcells w h g \<and> odd (fst c) \<and> odd (snd c)) \<and>
     (1, 1) \<in> pcells w h g \<and>
     room_struct w h (pcells w h g) \<and> tree (pcells w h g)"

lemma gen_inv_pop: "gen_inv w h g (c # st) \<Longrightarrow> gen_inv w h g st"
  by (simp add: gen_inv_def)

lemma gen_inv_carve:
  assumes inv: "gen_inv w h g ((x, y) # rest)"
    and d: "(dx, dy) \<in> DIRS"
    and ni: "interior w h (x + dx, y + dy)"
    and wall: "cell_at g (x + dx, y + dy) = Inr 1"
    and ok': "grid_ok w h g'"
    and at': "\<forall>c'. in_grid w h c' \<longrightarrow>
           cell_at g' c' = (if c' = (x + dx, y + dy) \<or> c' = (x + dx div 2, y + dy div 2)
                            then Inr 0 else cell_at g c')"
  shows "gen_inv w h g' ((x + dx, y + dy) # (x, y) # rest)"
proof -
  define hx hy where "hx = dx div 2" and "hy = dy div 2"
  from d have dx: "dx = 2 * hx" and dy: "dy = 2 * hy"
    and u: "(hx = 0 \<and> (hy = 1 \<or> hy = -1)) \<or> (hy = 0 \<and> (hx = 1 \<or> hx = -1))"
    by (auto simp: DIRS_def hx_def hy_def)
  let ?V = "pcells w h g"
  let ?m = "(x + hx, y + hy)" and ?n = "(x + 2 * hx, y + 2 * hy)"
  from inv have c: "(x, y) \<in> ?V" and ox: "odd x" and oy: "odd y"
    and rs: "room_struct w h ?V" and t: "tree ?V" and start: "(1, 1) \<in> ?V"
    and two: "\<forall>c. in_grid w h c \<longrightarrow> cell_at g c = Inr 0 \<or> cell_at g c = Inr 1"
    and st: "\<forall>c \<in> set rest. c \<in> ?V \<and> odd (fst c) \<and> odd (snd c)"
    by (auto simp: gen_inv_def)
  from ni have ni': "interior w h ?n" by (simp add: dx dy)
  then have n_in: "in_grid w h ?n" by (rule interior_in_grid)
  from room_structD1[OF rs c] have ci: "interior w h (x, y)" by simp
  with ni' u have m_in: "in_grid w h ?m" by (auto simp: interior_def in_grid_def)
  from wall have nV: "?n \<notin> ?V" by (simp add: pcells_def dx dy)
  have at: "cell_at g' c' = (if c' = ?n \<or> c' = ?m then Inr 0 else cell_at g c')"
    if "in_grid w h c'" for c'
  proof -
    from at'[rule_format, OF that] have "cell_at g' c' =
        (if c' = (x + dx, y + dy) \<or> c' = (x + hx, y + hy) then Inr 0 else cell_at g c')"
      by (simp add: hx_def hy_def)
    then show ?thesis by (simp add: dx dy)
  qed
  have V': "pcells w h g' = insert ?n (insert ?m ?V)"
    using n_in m_in by (auto simp: pcells_def at)
  have "tree (pcells w h g')"
    unfolding V' by (rule carve_tree[OF rs t c ox oy u nV])
  moreover have "room_struct w h (pcells w h g')"
    unfolding V' by (rule carve_room_struct[OF rs c ox oy u ni'])
  moreover have "\<forall>c. in_grid w h c \<longrightarrow> cell_at g' c = Inr 0 \<or> cell_at g' c = Inr 1"
    using two by (simp add: at)
  moreover have "odd (x + dx)" "odd (y + dy)" using ox oy by (simp_all add: dx dy)
  ultimately show ?thesis
    using ok' c ox oy st start unfolding gen_inv_def V' by (auto simp: dx dy)
qed

lemma gen_loop_inv:
  "gen_inv w h g st \<Longrightarrow> set dirs \<subseteq> DIRS \<Longrightarrow>
     \<exists>g' r'. gen_loop w h g st dirs r = Inr (g', r') \<and> gen_inv w h g' []"
proof (induction w h g st dirs r rule: gen_loop.induct)
  case (1 w h g dirs r)
  then show ?case by simp
next
  case (2 w h g c rest dirs r)
  obtain x y where c: "c = (x, y)" by (cases c)
  let ?ds = "fst (shuffle dirs r)"
  from "2.prems" have ds: "set ?ds \<subseteq> DIRS" by (simp add: shuffle_set)
  from "2.prems" have ok: "grid_ok w h g" and cV: "(x, y) \<in> pcells w h g"
    and rs: "room_struct w h (pcells w h g)" by (auto simp: gen_inv_def c)
  from room_structD1[OF rs cV] have ci: "interior w h (x, y)" by simp
  from try_dirs_carve[OF ok ci ds] show ?case
  proof (elim disjE exE conjE)
    assume none: "try_dirs w h g (x, y) ?ds = Inr None"
    from "2.prems" have "gen_inv w h g rest" by (auto dest: gen_inv_pop)
    from "2.IH"(1)[OF none[folded c] refl this ds] none show ?thesis
      by (simp add: c)
  next
    fix dx dy g'
    assume d: "(dx, dy) \<in> set ?ds"
      and some: "try_dirs w h g (x, y) ?ds = Inr (Some (g', x + dx, y + dy))"
      and ni: "interior w h (x + dx, y + dy)"
      and wall: "cell_at g (x + dx, y + dy) = Inr 1"
      and ok': "grid_ok w h g'"
      and at': "\<forall>c'. in_grid w h c' \<longrightarrow>
           cell_at g' c' = (if c' = (x + dx, y + dy) \<or> c' = (x + dx div 2, y + dy div 2)
                            then Inr 0 else cell_at g c')"
    from d ds have dD: "(dx, dy) \<in> DIRS" by blast
    have "gen_inv w h g' ((x + dx, y + dy) # (x, y) # rest)"
      by (rule gen_inv_carve[OF "2.prems"(1)[unfolded c] dD ni wall ok' at'])
    from "2.IH"(2)[OF some[folded c] refl refl this[folded c] ds] some show ?thesis
      by (simp add: c)
  qed
qed

lemma init_grid_ok: "0 \<le> w \<Longrightarrow> 0 \<le> h \<Longrightarrow> grid_ok w h (replicate (nat h) (replicate (nat w) 1))"
  by (simp add: grid_ok_def)

lemma init_grid_walls:
  assumes "in_grid w h c"
  shows "cell_at (replicate (nat h) (replicate (nat w) 1)) c = Inr 1"
proof -
  from assms have "0 \<le> w" "0 \<le> h" by (auto simp: in_grid_def)
  then have ok: "grid_ok w h (replicate (nat h) (replicate (nat w) 1))" by (rule init_grid_ok)
  from assms show ?thesis
    unfolding cell_at_ok[OF ok assms] by (simp add: in_grid_def)
qed

lemma generate_inv:
  assumes w: "3 \<le> w" and h: "3 \<le> h"
  shows "\<exists>g r'. generate \<lparr>width = w, height = h,
                           grid = replicate (nat h) (replicate (nat w) 1)\<rparr> r
                  = Inr (\<lparr>width = w, height = h, grid = g\<rparr>, r') \<and> gen_inv w h g []"
proof -
  let ?g = "replicate (nat h) (replicate (nat w) 1)"
  from w h have ok: "grid_ok w h ?g" by (intro init_grid_ok) simp_all
  from w h have s_in: "in_grid w h (1, 1)" by (simp add: in_grid_def)
  from grid_set_ok[OF ok s_in, of 0] obtain g0 where
    g0: "grid_set ?g 1 1 0 = Inr g0" and ok0: "grid_ok w h g0"
    and at0: "\<And>c'. in_grid w h c' \<Longrightarrow>
                cell_at g0 c' = (if c' = (1, 1) then Inr 0 else cell_at ?g c')"
    by auto
  have V0: "pcells w h g0 = {(1, 1)}"
    using s_in by (auto simp: pcells_def at0 init_grid_walls split: if_splits)
  have "room_struct w h {(1, 1)}" using w h by (simp add: room_struct_def interior_def)
  then have inv0: "gen_inv w h g0 [(1, 1)]"
    using ok0 by (auto simp: gen_inv_def V0 tree_single at0 init_grid_walls)
  have "set [(0, -2), (0, 2), (2, 0), (-2, 0)] \<subseteq> DIRS" by (simp add: DIRS_def)
  from gen_loop_inv[OF inv0 this, of r] obtain g' r' where
    "gen_loop w h g0 [(1, 1)] [(0, -2), (0, 2), (2, 0), (-2, 0)] r = Inr (g', r')"
    "gen_inv w h g' []" by blast
  with g0 show ?thesis by (simp add: generate_def)
qed

lemma Maze_init_inv:
  assumes "2 \<le> w0" and "2 \<le> h0"
  shows "\<exists>m r'. Maze_init w0 h0 r = Inr (m, r') \<and> 3 \<le> width m \<and> 3 \<le> height m \<and>
                gen_inv (width m) (height m) (grid m) []"
proof -
  define w where "w = (if w0 mod 2 = 0 then w0 + 1 else w0)"
  define h where "h = (if h0 mod 2 = 0 then h0 + 1 else h0)"
  from assms have w: "3 \<le> w" and h: "3 \<le> h" unfolding w_def h_def by presburger+
  from generate_inv[OF w h, of r] obtain g r' where
    "generate \<lparr>width = w, height = h, grid = replicate (nat h) (replicate (nat w) 1)\<rparr> r
       = Inr (\<lparr>width = w, height = h, grid = g\<rparr>, r')" "gen_inv w h g []" by blast
  with w h show ?thesis
    by (simp add: Maze_init_def Let_def flip: w_def h_def)
qed

lemma Maze_init_success:
  assumes "Maze_init w0 h0 r = Inr (m, r')"
  shows "2 \<le> w0 \<and> 2 \<le> h0"
proof -
  define w where "w = (if w0 mod 2 = 0 then w0 + 1 else w0)"
  define h where "h = (if h0 mod 2 = 0 then h0 + 1 else h0)"
  let ?g = "replicate (nat h) (replicate (nat w) (1::int))"
  from assms obtain g0 where "grid_set ?g 1 1 0 = Inr g0"
    by (auto simp: Maze_init_def generate_def Let_def split: sum.splits simp flip: w_def h_def)
  then obtain k where k: "py_index ?g 1 = Inr k" and "py_index (?g ! k) 1 \<noteq> Inl IndexError"
    by (auto simp: grid_set_def split: sum.splits)
  from k have kl: "k < nat h" by (auto dest: py_index_less)
  then have "?g ! k = replicate (nat w) 1" by simp
  with \<open>py_index (?g ! k) 1 \<noteq> Inl IndexError\<close> have "1 < w"
    by (auto simp: py_index_def Let_def split: if_splits)
  moreover from k have "1 < h" by (auto simp: py_index_def Let_def split: if_splits)
  ultimately show ?thesis unfolding w_def h_def by presburger
qed

text \<open>A request whose odd-rounded width or height is 1 makes the constructor raise.\<close>

lemma Maze_init_degenerate_raises:
  assumes "(if w0 mod 2 = 0 then w0 + 1 else w0) = 1 \<or> (if h0 mod 2 = 0 then h0 + 1 else h0) = 1"
  shows "Maze_init w0 h0 r = Inl IndexError"
proof -
  define w where "w = (if w0 mod 2 = 0 then w0 + 1 else w0)"
  define h where "h = (if h0 mod 2 = 0 then h0 + 1 else h0)"
  let ?g = "replicate (nat h) (replicate (nat w) (1::int))"
  from assms have wh: "w = 1 \<or> h = 1" by (simp add: w_def h_def)
  have "grid_set ?g 1 1 0 = Inl IndexError"
  proof (cases "1 < h")
    case True
    then have "py_index ?g 1 = Inr 1" by (simp add: py_index_def)
    moreover from True have "?g ! 1 = replicate (nat w) 1" by simp
    moreover from True wh have "py_index (replicate (nat w) (1::int)) 1 = Inl IndexError"
      by (simp add: py_index_def)
    ultimately show ?thesis by (simp add: grid_set_def)
  next
    case False
    then have "py_index ?g 1 = Inl IndexError" by (simp add: py_index_def)
    then show ?thesis by (simp add: grid_set_def)
  qed
  then show ?thesis
    by (simp add: Maze_init_def generate_def Let_def flip: w_def h_def)
qed

definition passage_cells :: "maze \<Rightarrow> cell set" where
  "passage_cells m = {c \<in> cells_of m. grid_get (grid m) (snd c) (fst c) = Inr 0}"

lemma passage_cells_pcells: "passage_cells m = pcells (width m) (height m) (grid m)"
  by (auto simp: passage_cells_def pcells_def cells_of_def in_grid_def cell_at_def)

lemma tree_reachable:
  assumes "tree V" and "s \<in> V" and "c \<in> V"
  shows "\<exists>p. walk_in V p \<and> hd p = s \<and> last p = c"
proof -
  from assms obtain p where "simple_path V s c p" unfolding tree_def by blast
  then show ?thesis by (auto simp: simple_path_def)
qed

section \<open>Reachable game states\<close>

text \<open>
  The game states the program can be in: the one the constructor builds, for any request and
  any state of the random generator, and every state in which a call of \<open>handle_input\<close>
  returns or waits for a key, for any keys typed.
\<close>

fun game_of :: "'a outcome \<Rightarrow> game option" where
  "game_of (Returned v g r ks) = Some g"
| "game_of (Raised e) = None"
| "game_of (Waiting ph g r) = Some g"

inductive reachable :: "game \<Rightarrow> bool" where
  start: "MazeGame_init w0 h0 r = Some (Inr (g, r')) \<Longrightarrow> reachable g"
| key: "reachable g \<Longrightarrow> handle_input ks g r = Some out \<Longrightarrow> game_of out = Some g' \<Longrightarrow> reachable g'"

definition game_inv :: "game \<Rightarrow> bool" where
  "game_inv g \<longleftrightarrow>
     3 \<le> width (maze g) \<and> 3 \<le> height (maze g) \<and>
     gen_inv (width (maze g)) (height (maze g)) (grid (maze g)) [] \<and>
     player_pos g \<in> passage_cells (maze g)"

lemma Maze_init_game_inv:
  assumes "Maze_init w0 h0 r = Inr (m, r')"
  shows "3 \<le> width m \<and> 3 \<le> height m \<and> gen_inv (width m) (height m) (grid m) [] \<and>
         (1, 1) \<in> passage_cells m"
proof -
  from Maze_init_success[OF assms] have "2 \<le> w0" "2 \<le> h0" by simp_all
  from Maze_init_inv[OF this, of r] assms show ?thesis
    by (auto simp: passage_cells_pcells gen_inv_def)
qed

lemma MazeGame_init_inv:
  "MazeGame_init w0 h0 r = Some (Inr (g, r')) \<Longrightarrow> game_inv g"
  by (auto simp: MazeGame_init_def game_inv_def split: sum.splits option.splits prod.splits
           dest!: Maze_init_game_inv)

lemma new_maze_inv:
  "new_maze g r = Some (Inr (g', r')) \<Longrightarrow> game_inv g'"
  by (auto simp: new_maze_def game_inv_def split: sum.splits option.splits prod.splits
           dest!: Maze_init_game_inv)

lemma handle_win_input_inv:
  "handle_win_input ks g r = Some out \<Longrightarrow> game_of out = Some g' \<Longrightarrow> game_inv g \<Longrightarrow> game_inv g'"
proof (induction ks)
  case Nil
  then show ?case by auto
next
  case (Cons k ks)
  then show ?case
    by (auto split: if_splits option.splits sum.splits prod.splits dest: new_maze_inv)
qed

lemma check_win_inv:
  "check_win ks g r = Some out \<Longrightarrow> game_of out = Some g' \<Longrightarrow> game_inv g \<Longrightarrow> game_inv g'"
  by (auto simp: check_win_def split: if_splits option.splits outcome.splits
           dest: handle_win_input_inv)

lemma player_interior:
  assumes "game_inv g"
  shows "interior (width (maze g)) (height (maze g)) (player_pos g)"
  using assms unfolding game_inv_def gen_inv_def room_struct_def passage_cells_pcells by blast

lemma move_inv:
  assumes inv: "game_inv g" and k: "keymap key = Some (dx, dy)"
    and v: "grid_get (grid (maze g)) (snd (player_pos g) + dy) (fst (player_pos g) + dx) = Inr 0"
  shows "game_inv (g\<lparr>player_pos := (fst (player_pos g) + dx, snd (player_pos g) + dy),
                     solution_path := p\<rparr>)"
proof -
  from k have "(dx, dy) \<in> {(0, -1), (0, 1), (-1, 0), (1, 0)}"
    by (auto simp: keymap_def split: if_splits)
  with player_interior[OF inv]
  have "(fst (player_pos g) + dx, snd (player_pos g) + dy) \<in> cells_of (maze g)"
    by (auto simp: interior_def cells_of_def)
  with v inv show ?thesis by (simp add: game_inv_def passage_cells_def)
qed

lemma handle_input_inv:
  assumes "handle_input ks g r = Some out" and "game_of out = Some g'" and "game_inv g"
  shows "game_inv g'"
proof (cases ks)
  case Nil
  with assms show ?thesis by (auto simp: handle_input_def)
next
  case (Cons key ks')
  show ?thesis
  proof (cases "keymap key")
    case None
    have flip: "game_inv (g\<lparr>show_solution := \<not> show_solution g\<rparr>)"
      using assms(3) by (simp add: game_inv_def)
    from assms None Cons show ?thesis
      by (auto simp: handle_input_def split: if_splits option.splits sum.splits prod.splits
               dest: check_win_inv[OF _ _ flip] check_win_inv new_maze_inv)
  next
    case (Some d)
    obtain dx dy where d: "d = (dx, dy)" by (cases d)
    from assms Some Cons d show ?thesis
      by (auto simp: handle_input_def Let_def
               split: if_splits option.splits sum.splits
               dest: check_win_inv move_inv[OF assms(3) Some[unfolded d]])
  qed
qed

lemma reachable_inv: "reachable g \<Longrightarrow> game_inv g"
  by (induction rule: reachable.induct) (auto intro: MazeGame_init_inv handle_input_inv)

lemma border_is_wall:
  assumes inv: "game_inv g" and c: "c \<in> cells_of (maze g)"
    and b: "fst c = 0 \<or> fst c = width (maze g) - 1 \<or> snd c = 0 \<or> snd c = height (maze g) - 1"
  shows "grid_get (grid (maze g)) (snd c) (fst c) = Inr 1"
proof -
  let ?w = "width (maze g)" and ?h = "height (maze g)"
  from c have ing: "in_grid ?w ?h c" by (auto simp: cells_of_def in_grid_def)
  from b have "\<not> interior ?w ?h c" by (auto simp: interior_def)
  with inv have "c \<notin> pcells ?w ?h (grid (maze g))"
    unfolding game_inv_def gen_inv_def room_struct_def by blast
  with ing have "cell_at (grid (maze g)) c \<noteq> Inr 0" by (simp add: pcells_def)
  moreover from inv ing have "cell_at (grid (maze g)) c = Inr 0 \<or> cell_at (grid (maze g)) c = Inr 1"
    unfolding game_inv_def gen_inv_def by blast
  ultimately show ?thesis by (simp add: cell_at_def)
qed

lemma move_read_in_range:
  assumes inv: "game_inv g" and k: "keymap key = Some (dx, dy)"
  shows "0 \<le> fst (player_pos g) + dx \<and> fst (player_pos g) + dx < width (maze g) \<and>
         0 \<le> snd (player_pos g) + dy \<and> snd (player_pos g) + dy < height (maze g) \<and>
         (\<exists>v. grid_get (grid (maze g)) (snd (player_pos g) + dy) (fst (player_pos g) + dx) = Inr v)"
proof -
  let ?w = "width (maze g)" and ?h = "height (maze g)"
  let ?t = "(fst (player_pos g) + dx, snd (player_pos g) + dy)"
  from k have "(dx, dy) \<in> {(0, -1), (0, 1), (-1, 0), (1, 0)}"
    by (auto simp: keymap_def split: if_splits)
  with player_interior[OF inv] have t: "in_grid ?w ?h ?t"
    by (auto simp: interior_def in_grid_def)
  from inv have "grid_ok ?w ?h (grid (maze g))" by (simp add: game_inv_def gen_inv_def)
  from cell_at_ok[OF this t] have "\<exists>v. cell_at (grid (maze g)) ?t = Inr v" by blast
  with t show ?thesis by (simp add: in_grid_def cell_at_def)
qed

section \<open>What the search maintains\<close>

text \<open>
  A maze is well formed when its grid has \<open>height\<close> rows of \<open>width\<close> cells. The search
  moves from any cell to an adjacent passage cell, so the routes it can follow from its start
  are the non-empty lists of adjacent cells whose cells after the first are passages. The
  invariant of the loop speaks of the depth \<open>d\<close> at which each cell was discovered: the
  queue is sorted by depth and spans at most two depths, and every cell that has left the
  queue is not the goal and has all its passage neighbours discovered, at most one deeper.
\<close>

definition well_formed :: "maze \<Rightarrow> bool" where
  "well_formed m \<longleftrightarrow> grid_ok (width m) (height m) (grid m)"

definition route :: "maze \<Rightarrow> cell list \<Rightarrow> bool" where
  "route m p \<longleftrightarrow> p \<noteq> [] \<and> set (tl p) \<subseteq> passage_cells m \<and> successively adjacent p"

lemma neighbors_from_ok:
  assumes wf: "well_formed m"
  shows "neighbors_from m x y ds =
           Inr (filter (\<lambda>c. c \<in> passage_cells m) (map (\<lambda>(dx, dy). (x + dx, y + dy)) ds))"
proof (induction ds)
  case Nil
  then show ?case by simp
next
  case (Cons d ds)
  obtain dx dy where d: "d = (dx, dy)" by (cases d)
  show ?case
  proof (cases "0 \<le> x + dx \<and> x + dx < width m \<and> 0 \<le> y + dy \<and> y + dy < height m")
    case False
    then have "(x + dx, y + dy) \<notin> passage_cells m"
      by (auto simp: passage_cells_def cells_of_def)
    with False Cons.IH show ?thesis by (auto simp: d Let_def)
  next
    case True
    then have ing: "in_grid (width m) (height m) (x + dx, y + dy)" by (simp add: in_grid_def)
    from cell_at_ok[OF wf[unfolded well_formed_def] ing] obtain v where
      v: "grid_get (grid m) (y + dy) (x + dx) = Inr v" by (auto simp: cell_at_def)
    from True have "(x + dx, y + dy) \<in> passage_cells m \<longleftrightarrow> v = 0"
      by (simp add: passage_cells_def cells_of_def v)
    with True v Cons.IH show ?thesis by (simp add: d Let_def)
  qed
qed

lemma neighbors_ok:
  assumes wf: "well_formed m"
  shows "\<exists>ns. neighbors m x y = Inr ns \<and> set ns = {v \<in> passage_cells m. adjacent (x, y) v}"
proof -
  have "set (filter (\<lambda>c. c \<in> passage_cells m)
              (map (\<lambda>(dx, dy). (x + dx, y + dy)) [(0, -1), (0, 1), (1, 0), (-1, 0)]))
        = {v \<in> passage_cells m. adjacent (x, y) v}"
  proof -
    have four: "adjacent (x, y) v \<longleftrightarrow> v \<in> {(x, y - 1), (x, y + 1), (x + 1, y), (x - 1, y)}" for v
    proof -
      obtain a b where v: "v = (a, b)" by (cases v)
      show ?thesis unfolding v adjacent_cases by auto
    qed
    show ?thesis unfolding four by auto
  qed
  then show ?thesis unfolding neighbors_def neighbors_from_ok[OF wf] by blast
qed

lemma visit_spec:
  "\<exists>new. visit P q cur ns = (P @ map (\<lambda>n. (n, Some cur)) new, q @ new) \<and>
         distinct new \<and> set new = set ns - dom (map_of P)"
proof (induction ns arbitrary: P q)
  case Nil
  then show ?case by simp
next
  case (Cons n ns)
  show ?case
  proof (cases "map_of P n = None")
    case True
    from Cons.IH[of "P @ [(n, Some cur)]" "q @ [n]"] obtain new where
      v: "visit (P @ [(n, Some cur)]) (q @ [n]) cur ns
            = ((P @ [(n, Some cur)]) @ map (\<lambda>n. (n, Some cur)) new, (q @ [n]) @ new)"
      and d: "distinct new" and s: "set new = set ns - dom (map_of (P @ [(n, Some cur)]))"
      by blast
    from s have s': "set new = set ns - dom (map_of P) - {n}" by (auto simp: dom_def)
    with True d have "distinct (n # new)" "set (n # new) = set (n # ns) - dom (map_of P)"
      by (auto simp: dom_def)
    moreover from True v have
      "visit P q cur (n # ns) = (P @ map (\<lambda>n. (n, Some cur)) (n # new), q @ (n # new))"
      by simp
    ultimately show ?thesis by blast
  next
    case False
    from Cons.IH[of P q] obtain new where
      v: "visit P q cur ns = (P @ map (\<lambda>n. (n, Some cur)) new, q @ new)"
      and d: "distinct new" and s: "set new = set ns - dom (map_of P)" by blast
    from False s have "set new = set (n # ns) - dom (map_of P)" by (auto simp: dom_def)
    with False v d show ?thesis by auto
  qed
qed

lemma map_of_append_new:
  "map_of (P @ map (\<lambda>n. (n, Some cur)) new) v =
     (case map_of P v of Some x \<Rightarrow> Some x | None \<Rightarrow> if v \<in> set new then Some (Some cur) else None)"
proof -
  have "map_of (map (\<lambda>n. (n, Some cur)) new) v = (if v \<in> set new then Some (Some cur) else None)"
    by (induction new) auto
  then show ?thesis by (simp add: map_add_def split: option.splits)
qed

definition bfs_inv :: "maze \<Rightarrow> cell \<Rightarrow> cell \<Rightarrow> (cell \<Rightarrow> nat) \<Rightarrow> cell list \<Rightarrow> preds \<Rightarrow> bool" where
  "bfs_inv m s goal d q P \<longleftrightarrow>
     map_of P s = Some None \<and> d s = 0 \<and>
     (\<forall>v. map_of P v = Some None \<longrightarrow> v = s) \<and>
     (\<forall>v u. map_of P v = Some (Some u) \<longrightarrow>
        u \<in> dom (map_of P) \<and> adjacent u v \<and> v \<in> passage_cells m \<and> d v = d u + 1) \<and>
     set q \<subseteq> dom (map_of P) \<and>
     sorted (map d q) \<and>
     (\<forall>v \<in> dom (map_of P). \<forall>c \<in> set q. d v \<le> d c + 1) \<and>
     (\<forall>v \<in> dom (map_of P). v \<notin> set q \<longrightarrow>
        v \<noteq> goal \<and> (\<forall>c \<in> set q. d v \<le> d c) \<and>
        (\<forall>w \<in> passage_cells m. adjacent v w \<longrightarrow> w \<in> dom (map_of P) \<and> d w \<le> d v + 1))"

lemma bfs_inv_init: "bfs_inv m s goal (\<lambda>_. 0) [s] [(s, None)]"
  by (auto simp: bfs_inv_def split: if_splits)

lemma bfs_step:
  assumes inv: "bfs_inv m s goal d (cur # q0) P" and ne: "cur \<noteq> goal"
    and dn: "distinct new"
    and sn: "set new = {v \<in> passage_cells m. adjacent cur v} - dom (map_of P)"
  shows "bfs_inv m s goal (\<lambda>v. if v \<in> set new then d cur + 1 else d v) (q0 @ new)
           (P @ map (\<lambda>n. (n, Some cur)) new)"
proof -
  define P' where "P' = P @ map (\<lambda>n. (n, Some cur)) new"
  let ?d = "\<lambda>v. if v \<in> set new then d cur + 1 else d v"
  let ?D = "dom (map_of P)"
  from inv have s0: "map_of P s = Some None" and d0: "d s = 0"
    and root: "\<And>v. map_of P v = Some None \<Longrightarrow> v = s"
    and par: "\<And>v u. map_of P v = Some (Some u) \<Longrightarrow>
                u \<in> ?D \<and> adjacent u v \<and> v \<in> passage_cells m \<and> d v = d u + 1"
    and qsub: "set (cur # q0) \<subseteq> ?D"
    and srt: "sorted (map d (cur # q0))"
    and near: "\<And>v c. v \<in> ?D \<Longrightarrow> c \<in> set (cur # q0) \<Longrightarrow> d v \<le> d c + 1"
    and fin: "\<And>v. v \<in> ?D \<Longrightarrow> v \<notin> set (cur # q0) \<Longrightarrow>
                v \<noteq> goal \<and> (\<forall>c \<in> set (cur # q0). d v \<le> d c) \<and>
                (\<forall>w \<in> passage_cells m. adjacent v w \<longrightarrow> w \<in> ?D \<and> d w \<le> d v + 1)"
    unfolding bfs_inv_def by blast+
  have mp: "map_of P' v = (case map_of P v of Some x \<Rightarrow> Some x
                           | None \<Rightarrow> if v \<in> set new then Some (Some cur) else None)" for v
    unfolding P'_def by (rule map_of_append_new)
  have disj: "v \<in> set new \<Longrightarrow> v \<notin> ?D" for v using sn by blast
  have disj': "v \<in> set new \<Longrightarrow> map_of P v = None" for v using disj by (auto simp: dom_def)
  have old: "map_of P' v = map_of P v \<and> ?d v = d v" if "v \<in> ?D" for v
  proof -
    from that disj have "v \<notin> set new" by blast
    with that show ?thesis by (auto simp: mp dom_def)
  qed
  have dom': "dom (map_of P') = ?D \<union> set new"
    by (auto simp: mp dom_def split: option.splits if_splits)
  have curD: "cur \<in> ?D" and q0D: "set q0 \<subseteq> ?D" using qsub by auto
  have dq0: "?d c = d c \<and> d cur \<le> d c" if "c \<in> set q0" for c
  proof -
    from that q0D have "c \<in> ?D" by blast
    with disj have "c \<notin> set new" by blast
    moreover from srt that have "d cur \<le> d c" by auto
    ultimately show ?thesis by simp
  qed
  have 1: "map_of P' s = Some None" using s0 by (simp add: mp)
  have sD: "s \<in> ?D" using s0 by (simp add: domI)
  have 2: "?d s = 0" using d0 old[OF sD] by simp
  have 3: "map_of P' v = Some None \<longrightarrow> v = s" for v
    using root by (auto simp: mp split: option.splits if_splits)
  have 4: "map_of P' v = Some (Some u) \<longrightarrow>
             u \<in> dom (map_of P') \<and> adjacent u v \<and> v \<in> passage_cells m \<and> ?d v = ?d u + 1" for v u
  proof
    assume a: "map_of P' v = Some (Some u)"
    show "u \<in> dom (map_of P') \<and> adjacent u v \<and> v \<in> passage_cells m \<and> ?d v = ?d u + 1"
    proof (cases "map_of P v")
      case None
      with a have vn: "v \<in> set new" and u: "u = cur" by (auto simp: mp split: if_splits)
      from vn sn have "adjacent cur v" "v \<in> passage_cells m" by auto
      moreover from curD have "cur \<in> dom (map_of P')" by (simp add: dom')
      moreover from curD disj have "cur \<notin> set new" by blast
      ultimately show ?thesis using vn u by simp
    next
      case (Some x)
      with a have pv: "map_of P v = Some (Some u)" by (simp add: mp)
      then have vD: "v \<in> ?D" by (auto simp: dom_def)
      from par[OF pv] have uD: "u \<in> ?D" and r: "adjacent u v" "v \<in> passage_cells m" "d v = d u + 1"
        by auto
      with old[OF vD] old[OF uD] show ?thesis by (simp add: dom')
    qed
  qed
  have 5: "set (q0 @ new) \<subseteq> dom (map_of P')" using q0D by (auto simp: dom')
  have 6: "sorted (map ?d (q0 @ new))"
  proof -
    have a: "map ?d q0 = map d q0" using dq0 by (intro map_cong) auto
    have b: "map ?d new = replicate (length new) (d cur + 1)"
      by (simp add: map_replicate_const[symmetric] cong: map_cong)
    have "sorted (map d q0)" using srt by simp
    moreover have "\<forall>x \<in> set q0. d x \<le> d cur + 1"
    proof
      fix x assume "x \<in> set q0"
      with q0D have "x \<in> ?D" by blast
      from near[OF this, of cur] show "d x \<le> d cur + 1" by simp
    qed
    ultimately show ?thesis unfolding map_append a b by (auto simp: sorted_append)
  qed
  have dc: "d cur \<le> ?d c" if "c \<in> set (q0 @ new)" for c
  proof (cases "c \<in> set new")
    case True
    then show ?thesis by simp
  next
    case False
    with that have "c \<in> set q0" by simp
    from dq0[OF this] show ?thesis by simp
  qed
  have 7: "\<forall>v \<in> dom (map_of P'). \<forall>c \<in> set (q0 @ new). ?d v \<le> ?d c + 1"
  proof (intro ballI)
    fix v c assume v: "v \<in> dom (map_of P')" and c: "c \<in> set (q0 @ new)"
    note dc = dc[OF c]
    show "?d v \<le> ?d c + 1"
    proof (cases "v \<in> set new")
      case True
      with dc show ?thesis by simp
    next
      case False
      with v have vD: "v \<in> ?D" by (simp add: dom')
      from near[OF vD, of cur] have "d v \<le> d cur + 1" by simp
      show ?thesis
      proof (cases "c \<in> set new")
        case True
        with False \<open>d v \<le> d cur + 1\<close> show ?thesis by simp
      next
        case cf: False
        with c have cq: "c \<in> set q0" by simp
        from near[OF vD, of c] cq dq0[OF cq] False show ?thesis by simp
      qed
    qed
  qed
  have 8: "\<forall>v \<in> dom (map_of P'). v \<notin> set (q0 @ new) \<longrightarrow>
        v \<noteq> goal \<and> (\<forall>c \<in> set (q0 @ new). ?d v \<le> ?d c) \<and>
        (\<forall>w \<in> passage_cells m. adjacent v w \<longrightarrow> w \<in> dom (map_of P') \<and> ?d w \<le> ?d v + 1)"
  proof (intro ballI impI)
    fix v assume v: "v \<in> dom (map_of P')" and nq: "v \<notin> set (q0 @ new)"
    then have vD: "v \<in> ?D" and vn: "v \<notin> set new" and vq0: "v \<notin> set q0" by (auto simp: dom')
    have dv: "?d v = d v" using vn by simp
    have le_cur: "d v \<le> d cur"
    proof (cases "v = cur")
      case True
      then show ?thesis by simp
    next
      case False
      with vq0 have "v \<notin> set (cur # q0)" by simp
      from fin[OF vD this] show ?thesis by simp
    qed
    have a: "v \<noteq> goal"
    proof (cases "v = cur")
      case True
      with ne show ?thesis by simp
    next
      case False
      with vq0 have "v \<notin> set (cur # q0)" by simp
      from fin[OF vD this] show ?thesis by simp
    qed
    have b: "\<forall>c \<in> set (q0 @ new). ?d v \<le> ?d c"
    proof
      fix c assume c: "c \<in> set (q0 @ new)"
      from dc[OF c] le_cur dv show "?d v \<le> ?d c" by simp
    qed
    have c: "\<forall>w \<in> passage_cells m. adjacent v w \<longrightarrow> w \<in> dom (map_of P') \<and> ?d w \<le> ?d v + 1"
    proof (intro ballI impI)
      fix w assume w: "w \<in> passage_cells m" and adj: "adjacent v w"
      show "w \<in> dom (map_of P') \<and> ?d w \<le> ?d v + 1"
      proof (cases "v = cur")
        case True
        show ?thesis
        proof (cases "w \<in> ?D")
          case wD: True
          from near[OF wD, of cur] have "d w \<le> d cur + 1" by simp
          with wD True dv disj[of w] show ?thesis by (auto simp: dom')
        next
          case False
          with w adj True sn have "w \<in> set new" by simp
          with True dv show ?thesis by (simp add: dom')
        qed
      next
        case False
        with vq0 have "v \<notin> set (cur # q0)" by simp
        from fin[OF vD this] w adj have wD: "w \<in> ?D" and "d w \<le> d v + 1" by auto
        with dv disj[of w] show ?thesis by (auto simp: dom')
      qed
    qed
    from a b c show "v \<noteq> goal \<and> (\<forall>c \<in> set (q0 @ new). ?d v \<le> ?d c) \<and>
        (\<forall>w \<in> passage_cells m. adjacent v w \<longrightarrow> w \<in> dom (map_of P') \<and> ?d w \<le> ?d v + 1)"
      by blast
  qed
  have "bfs_inv m s goal ?d (q0 @ new) P'"
    unfolding bfs_inv_def using 1 2 3 4 5 6 7 8 by blast
  then show ?thesis by (simp only: P'_def)
qed

lemma solve_loop_inv:
  "well_formed m \<Longrightarrow> bfs_inv m s goal d q P \<Longrightarrow>
     \<exists>P' q' d'. solve_loop m goal q P = Inr P' \<and> bfs_inv m s goal d' q' P' \<and>
               (q' = [] \<or> hd q' = goal)"
proof (induction m goal q P arbitrary: d rule: solve_loop.induct)
  case (1 m goal P)
  then show ?case by auto
next
  case (2 m goal current q P)
  show ?case
  proof (cases "current = goal")
    case True
    with "2.prems"(2) show ?thesis by (intro exI[of _ P] exI[of _ "current # q"]) auto
  next
    case False
    from neighbors_ok[OF "2.prems"(1), of "fst current" "snd current"] obtain ns where
      ns: "neighbors m (fst current) (snd current) = Inr ns"
      and sns: "set ns = {v \<in> passage_cells m. adjacent current v}" by auto
    from visit_spec[of P q current ns] obtain new where
      v: "visit P q current ns = (P @ map (\<lambda>n. (n, Some current)) new, q @ new)"
      and dn: "distinct new" and sn: "set new = set ns - dom (map_of P)" by blast
    from bfs_step[OF "2.prems"(2) False dn sn[unfolded sns]]
    have "bfs_inv m s goal (\<lambda>v. if v \<in> set new then d current + 1 else d v)
            (snd (visit P q current ns)) (fst (visit P q current ns))"
      by (simp add: v)
    from "2.IH"[OF False ns "2.prems"(1) this] False ns show ?thesis by simp
  qed
qed

lemma bfs_chain:
  assumes inv: "bfs_inv m s goal d q P"
  shows "v \<in> dom (map_of P) \<Longrightarrow>
     \<exists>p. route m p \<and> hd p = s \<and> last p = v \<and> length p = d v + 1 \<and>
         (\<forall>acc. walk_back P (Some v) acc = Some (Inr (acc @ rev p)))"
proof (induction "d v" arbitrary: v)
  case 0
  then obtain x where x: "map_of P v = Some x" by auto
  have "x = None"
  proof (cases x)
    case (Some u)
    with x inv have "d v = d u + 1" unfolding bfs_inv_def by blast
    with 0 show ?thesis by simp
  qed simp
  with x inv have vs: "v = s" unfolding bfs_inv_def by blast
  have "\<forall>acc. walk_back P (Some v) acc = Some (Inr (acc @ rev [v]))"
    using x \<open>x = None\<close> by (simp add: walk_back.simps)
  moreover have "route m [v]" by (simp add: route_def)
  ultimately show ?case using vs 0 by (intro exI[of _ "[v]"]) simp
next
  case (Suc n)
  then obtain x where x: "map_of P v = Some x" by auto
  have "x \<noteq> None"
  proof
    assume "x = None"
    with x inv have "v = s" "d s = 0" unfolding bfs_inv_def by blast+
    with Suc show False by simp
  qed
  then obtain u where u: "map_of P v = Some (Some u)" using x by auto
  with inv have uD: "u \<in> dom (map_of P)" and adj: "adjacent u v"
    and vp: "v \<in> passage_cells m" and dv: "d v = d u + 1"
    unfolding bfs_inv_def by blast+
  from dv Suc have "n = d u" by simp
  from Suc.hyps(1)[OF this uD] obtain p where
    p: "route m p" "hd p = s" "last p = u" "length p = d u + 1"
    and wb: "\<And>acc. walk_back P (Some u) acc = Some (Inr (acc @ rev p))" by blast
  from p have ne: "p \<noteq> []" by (simp add: route_def)
  have "route m (p @ [v])"
    using p ne adj vp by (auto simp: route_def successively_append_iff)
  moreover have "\<forall>acc. walk_back P (Some v) acc = Some (Inr (acc @ rev (p @ [v])))"
    using u wb by (subst walk_back.simps) simp
  ultimately show ?case using p ne dv by (intro exI[of _ "p @ [v]"]) simp
qed

lemma route_butlast:
  assumes "route m (xs @ [x])" and "xs \<noteq> []"
  shows "route m xs \<and> adjacent (last xs) x \<and> x \<in> passage_cells m"
  using assms by (auto simp: route_def successively_append_iff)

lemma bfs_route_bound:
  assumes inv: "bfs_inv m s goal d q P" and q: "q \<noteq> []"
  shows "route m p \<Longrightarrow> hd p = s \<Longrightarrow> length p \<le> d (hd q) + 1 \<Longrightarrow>
         last p \<in> dom (map_of P) \<and> d (last p) + 1 \<le> length p"
proof (induction p rule: rev_induct)
  case Nil
  then show ?case by (simp add: route_def)
next
  case (snoc x xs)
  show ?case
  proof (cases "xs = []")
    case True
    with snoc.prems inv show ?thesis unfolding bfs_inv_def by auto
  next
    case False
    from route_butlast[OF snoc.prems(1) False] have r: "route m xs"
      and adj: "adjacent (last xs) x" and xp: "x \<in> passage_cells m" by simp_all
    from snoc.prems False have "hd xs = s" "length xs \<le> d (hd q) + 1" by simp_all
    from snoc.IH[OF r this] have lD: "last xs \<in> dom (map_of P)"
      and dl: "d (last xs) + 1 \<le> length xs" by simp_all
    from dl snoc.prems(3) have lt: "d (last xs) < d (hd q)" by simp
    have "last xs \<notin> set q"
    proof
      assume "last xs \<in> set q"
      moreover from inv have "sorted (map d q)" unfolding bfs_inv_def by blast
      ultimately have "d (hd q) \<le> d (last xs)" using q by (cases q) auto
      with lt show False by simp
    qed
    with inv lD xp adj have "x \<in> dom (map_of P) \<and> d x \<le> d (last xs) + 1"
      unfolding bfs_inv_def by blast
    with dl show ?thesis by simp
  qed
qed

lemma bfs_closed:
  assumes inv: "bfs_inv m s goal d [] P"
  shows "route m p \<Longrightarrow> hd p = s \<Longrightarrow> last p \<in> dom (map_of P)"
proof (induction p rule: rev_induct)
  case Nil
  then show ?case by (simp add: route_def)
next
  case (snoc x xs)
  show ?case
  proof (cases "xs = []")
    case True
    with snoc.prems inv show ?thesis unfolding bfs_inv_def by auto
  next
    case False
    from route_butlast[OF snoc.prems(1) False] have r: "route m xs"
      and adj: "adjacent (last xs) x" and xp: "x \<in> passage_cells m" by simp_all
    from snoc.prems False have "hd xs = s" by simp
    from snoc.IH[OF r this] have "last xs \<in> dom (map_of P)" .
    with inv xp adj have "x \<in> dom (map_of P)" unfolding bfs_inv_def by simp
    then show ?thesis by simp
  qed
qed

definition shortest_distance :: "cell set \<Rightarrow> cell \<Rightarrow> cell \<Rightarrow> nat" where
  "shortest_distance V a b =
     (LEAST k. \<exists>p. walk_in V p \<and> hd p = a \<and> last p = b \<and> length p = k + 1)"

lemma walk_in_route: "walk_in (passage_cells m) p \<Longrightarrow> route m p"
  by (cases p) (auto simp: walk_in_def route_def)

lemma route_walk_in: "route m p \<Longrightarrow> hd p \<in> passage_cells m \<Longrightarrow> walk_in (passage_cells m) p"
  by (cases p) (auto simp: walk_in_def route_def)

lemma solve_exit:
  assumes wf: "well_formed m"
  shows "\<exists>P' q' d'. solve_loop m goal [start] [(start, None)] = Inr P' \<and>
           bfs_inv m start goal d' q' P' \<and> (q' = [] \<or> hd q' = goal) \<and>
           solve m start goal = Inr (if goal \<in> dom (map_of P') then P' else [])"
proof -
  from solve_loop_inv[OF wf bfs_inv_init[of m start goal]] obtain P' q' d' where
    l: "solve_loop m goal [start] [(start, None)] = Inr P'"
    and i: "bfs_inv m start goal d' q' P'" "q' = [] \<or> hd q' = goal" by blast
  from l have "solve m start goal = Inr (if goal \<in> dom (map_of P') then P' else [])"
    by (auto simp: solve_def dom_def)
  with l i show ?thesis by blast
qed

lemma bfs_found_iff:
  assumes inv: "bfs_inv m s goal d q P" and ex: "q = [] \<or> hd q = goal"
  shows "goal \<in> dom (map_of P) \<longleftrightarrow> (\<exists>p. route m p \<and> hd p = s \<and> last p = goal)"
proof
  assume "goal \<in> dom (map_of P)"
  from bfs_chain[OF inv this] show "\<exists>p. route m p \<and> hd p = s \<and> last p = goal" by blast
next
  assume "\<exists>p. route m p \<and> hd p = s \<and> last p = goal"
  then obtain p where p: "route m p" "hd p = s" "last p = goal" by blast
  show "goal \<in> dom (map_of P)"
  proof (cases "q = []")
    case True
    from bfs_closed[OF inv[unfolded True] p(1,2)] p(3) show ?thesis by simp
  next
    case False
    with ex have "goal \<in> set q" by (cases q) auto
    with inv show ?thesis unfolding bfs_inv_def by blast
  qed
qed

lemma bfs_found_queue:
  assumes inv: "bfs_inv m s goal d q P" and ex: "q = [] \<or> hd q = goal"
    and g: "goal \<in> dom (map_of P)"
  shows "q \<noteq> [] \<and> hd q = goal"
proof -
  have "q \<noteq> []"
  proof
    assume "q = []"
    moreover from inv have "\<forall>v \<in> dom (map_of P). v \<notin> set q \<longrightarrow> v \<noteq> goal"
      unfolding bfs_inv_def by blast
    ultimately show False using g by auto
  qed
  with ex show ?thesis by simp
qed

text \<open>
  The search of the specification without the early exit: the same loop, run until the queue
  is empty, whether or not the goal has been dequeued.
\<close>

function solve_loop_no_exit :: "maze \<Rightarrow> cell list \<Rightarrow> preds \<Rightarrow> error + preds" where
  "solve_loop_no_exit m [] P = Inr P"
| "solve_loop_no_exit m (current # q) P =
     (case neighbors m (fst current) (snd current) of
        Inl e \<Rightarrow> Inl e
      | Inr ns \<Rightarrow> solve_loop_no_exit m (snd (visit P q current ns))
                                        (fst (visit P q current ns)))"
  by pat_completeness auto
termination
proof (relation "measures [\<lambda>(m, q, P). card (cells_of m - dom (map_of P)),
                           \<lambda>(m, q, P). length q]", goal_cases)
  case 1
  then show ?case by simp
next
  case (2 m current q P ns)
  then have "set ns \<subseteq> cells_of m"
    unfolding neighbors_def by (rule neighbors_from_in_grid)
  from visit_measure[OF surjective_pairing this, of P q current]
  show ?case by auto
qed

definition solve_no_exit :: "maze \<Rightarrow> cell \<Rightarrow> cell \<Rightarrow> error + preds" where
  "solve_no_exit m start goal =
     (case solve_loop_no_exit m [start] [(start, None)] of
        Inl e \<Rightarrow> Inl e
      | Inr P \<Rightarrow> Inr (if map_of P goal \<noteq> None then P else []))"

lemma solve_loop_no_exit_extends:
  "well_formed m \<Longrightarrow>
     \<exists>P'. solve_loop_no_exit m q P = Inr P' \<and>
          (\<forall>v \<in> dom (map_of P). map_of P' v = map_of P v)"
proof (induction m q P rule: solve_loop_no_exit.induct)
  case (1 m P)
  then show ?case by simp
next
  case (2 m current q P)
  from neighbors_ok[OF "2.prems", of "fst current" "snd current"] obtain ns where
    ns: "neighbors m (fst current) (snd current) = Inr ns" by auto
  from visit_spec[of P q current ns] obtain new where
    v: "visit P q current ns = (P @ map (\<lambda>n. (n, Some current)) new, q @ new)" by blast
  from "2.IH"[OF ns "2.prems"] obtain P' where
    l: "solve_loop_no_exit m (snd (visit P q current ns)) (fst (visit P q current ns)) = Inr P'"
    and e: "\<forall>v \<in> dom (map_of (fst (visit P q current ns))). map_of P' v = map_of (fst (visit P q current ns)) v"
    by blast
  have "map_of P' x = map_of P x" if "x \<in> dom (map_of P)" for x
  proof -
    from that obtain y where y: "map_of P x = Some y" by auto
    then have a: "map_of (fst (visit P q current ns)) x = Some y"
      unfolding v fst_conv map_of_append_new by simp
    then have "x \<in> dom (map_of (fst (visit P q current ns)))" by (rule domI)
    with e a y show ?thesis by simp
  qed
  with l ns show ?case by simp
qed

lemma solve_loop_continues:
  "well_formed m \<Longrightarrow> solve_loop m goal q P = Inr P' \<Longrightarrow>
     \<exists>Pf. solve_loop_no_exit m q P = Inr Pf \<and>
          (\<forall>v \<in> dom (map_of P'). map_of Pf v = map_of P' v)"
proof (induction m goal q P rule: solve_loop.induct)
  case (1 m goal P)
  then show ?case by simp
next
  case (2 m goal current q P)
  show ?case
  proof (cases "current = goal")
    case True
    with "2.prems"(2) have "P' = P" by simp
    with solve_loop_no_exit_extends[OF "2.prems"(1), of "current # q" P] show ?thesis by simp
  next
    case False
    from neighbors_ok[OF "2.prems"(1), of "fst current" "snd current"] obtain ns where
      ns: "neighbors m (fst current) (snd current) = Inr ns" by auto
    from "2.prems"(2) False ns have
      "solve_loop m goal (snd (visit P q current ns)) (fst (visit P q current ns)) = Inr P'"
      by simp
    from "2.IH"[OF False ns "2.prems"(1) this] ns show ?thesis by simp
  qed
qed

lemma walk_back_agree:
  assumes inv: "bfs_inv m s goal d q P"
    and ext: "\<forall>v \<in> dom (map_of P). map_of Pf v = map_of P v"
  shows "v \<in> dom (map_of P) \<Longrightarrow> walk_back Pf (Some v) acc = walk_back P (Some v) acc"
proof (induction "d v" arbitrary: v acc rule: less_induct)
  case less
  from less.prems obtain x where x: "map_of P v = Some x" by auto
  with ext less.prems have xf: "map_of Pf v = Some x" by simp
  show ?case
  proof (cases x)
    case None
    with x xf show ?thesis by (simp add: walk_back.simps)
  next
    case (Some u)
    with x inv have uD: "u \<in> dom (map_of P)" and "d v = d u + 1"
      unfolding bfs_inv_def by blast+
    then have "d u < d v" by simp
    from less.hyps[OF this uD, of "acc @ [v]"] x xf Some show ?thesis
      by (simp add: walk_back.simps[of _ "Some v"])
  qed
qed

text \<open>
  Consequences for the callers: a constructed maze is well formed; on a well-formed maze the
  solution path is always computed (the solver does not raise and the reconstruction ends);
  the game constructor succeeds for every request of at least 2 by 2.
\<close>

lemma Maze_init_well_formed:
  "Maze_init w0 h0 r = Inr (m, r') \<Longrightarrow> well_formed m"
  by (auto simp: well_formed_def gen_inv_def dest: Maze_init_game_inv)

lemma solution_for_total:
  assumes wf: "well_formed m"
  shows "\<exists>p. solution_for m start goal = Some (Inr p)"
proof -
  from solve_exit[OF wf, where goal = goal and start = start] obtain P' q' d' where
    inv: "bfs_inv m start goal d' q' P'"
    and s: "solve m start goal = Inr (if goal \<in> dom (map_of P') then P' else [])" by blast
  show ?thesis
  proof (cases "goal \<in> dom (map_of P')")
    case True
    from bfs_chain[OF inv True] obtain p where
      "\<And>acc. walk_back P' (Some goal) acc = Some (Inr (acc @ rev p))" by blast
    then have "reconstruct_path P' goal = Some (Inr p)" by (simp add: reconstruct_path_def)
    with True s show ?thesis by (auto simp: solution_for_def)
  next
    case False
    with s show ?thesis by (simp add: solution_for_def)
  qed
qed

lemma toggle_with_more_keys:
  assumes "key = 115 \<or> key = 83" and "player_pos g \<noteq> goal_pos g"
  shows "handle_input (key # ks) g r
           = Some (Returned True (g\<lparr>show_solution := \<not> show_solution g\<rparr>) r ks)"
  using assms
  by (auto simp: handle_input_def keymap_def check_win_def
        KEY_UP_def KEY_DOWN_def KEY_LEFT_def KEY_RIGHT_def)

lemma MazeGame_init_total:
  assumes "2 \<le> w0" and "2 \<le> h0"
  shows "\<exists>g r'. MazeGame_init w0 h0 r = Some (Inr (g, r'))"
proof -
  from Maze_init_inv[OF assms, of r] obtain m r' where
    m: "Maze_init w0 h0 r = Inr (m, r')" by blast
  from solution_for_total[OF Maze_init_well_formed[OF m]] obtain p where
    "solution_for m (1, 1) (width m - 2, height m - 2) = Some (Inr p)" by blast
  with m show ?thesis by (simp add: MazeGame_init_def)
qed

section \<open>The draws the generator uses\<close>








section \<open>Test data\<close>

text \<open>A generator tape whose every draw is 0, and the game \<open>MazeGame(stdscr, 3, 3)\<close>
  builds: one room, which is the start and the goal at once.\<close>

definition rng0 :: rng where
  "rng0 = (\<lambda>_. 0)"

definition game_3x3 :: game where
  "game_3x3 = \<lparr>maze = \<lparr>width = 3, height = 3, grid = [[1, 1, 1], [1, 0, 1], [1, 1, 1]]\<rparr>,
               player_pos = (1, 1), goal_pos = (1, 1), show_solution = False,
               solution_path = [(1, 1)]\<rparr>"

text \<open>The game \<open>MazeGame(stdscr, 5, 5)\<close> builds when every draw is 0.\<close>

definition game_5x5 :: game where
  "game_5x5 = \<lparr>maze = \<lparr>width = 5, height = 5,
                        grid = [[1, 1, 1, 1, 1], [1, 0, 1, 0, 1], [1, 0, 1, 0, 1],
                                [1, 0, 0, 0, 1], [1, 1, 1, 1, 1]]\<rparr>,
               player_pos = (1, 1), goal_pos = (3, 3), show_solution = False,
               solution_path = [(1, 1), (1, 2), (1, 3), (2, 3), (3, 3)]\<rparr>"

lemma game_5x5_constructed:
  "map_option (map_sum id fst) (MazeGame_init 5 5 rng0) = Some (Inr game_5x5)"
  by code_simp

lemma game_3x3_constructed:
  "map_option (map_sum id fst) (MazeGame_init 3 3 rng0) = Some (Inr game_3x3)"
  by code_simp

text \<open>The game after the player has moved one cell down in \<open>game_5x5\<close>.\<close>

definition game_5x5_moved :: game where
  "game_5x5_moved = game_5x5\<lparr>player_pos := (1, 2),
                               solution_path := [(1, 2), (1, 3), (2, 3), (3, 3)]\<rparr>"

lemma game_5x5_move_down:
  "map_option game_of (handle_input [KEY_DOWN] game_5x5 rng0) = Some (Some game_5x5_moved)"
  by code_simp

lemma reachable_game_5x5_moved: "reachable game_5x5_moved"
proof -
  from game_5x5_constructed obtain r' where "MazeGame_init 5 5 rng0 = Some (Inr (game_5x5, r'))"
    by (cases "MazeGame_init 5 5 rng0") (auto simp: map_sum_def split: sum.splits)
  then have "reachable game_5x5" by (rule reachable.start)
  moreover from game_5x5_move_down obtain out where
    "handle_input [KEY_DOWN] game_5x5 rng0 = Some out" "game_of out = Some game_5x5_moved"
    by auto
  ultimately show ?thesis by (rule reachable.key)
qed

text \<open>A grid with four rooms and no door between them.\<close>

definition maze_split :: maze where
  "maze_split = \<lparr>width = 5, height = 5,
                  grid = [[1, 1, 1, 1, 1], [1, 0, 1, 0, 1], [1, 1, 1, 1, 1],
                          [1, 0, 1, 0, 1], [1, 1, 1, 1, 1]]\<rparr>"

text \<open>A seeding under which the seed \<open>a\<close> gives the draws \<open>a, a + 1, a + 2, ...\<close>; with it
  the generated grid differs from the one of the all-zero tape.\<close>

definition seq_rng :: "int \<Rightarrow> rng" where
  "seq_rng a = (\<lambda>i. nat a + i)"

lemma generation_depends_on_draws:
  "map_sum id (grid \<circ> fst) (Maze_init 5 5 (seq_rng 3))
     \<noteq> map_sum id (grid \<circ> fst) (Maze_init 5 5 rng0)"
  by code_simp


section \<open>Dimensions and degenerate sizes\<close>

text \<open>
  C4. The constructed maze stores the requested width plus one when the request is even and
  the requested width itself when it is odd, and the same for the height, each axis on its
  own: whenever \<open>Maze(w0, h0)\<close> constructs a maze \<open>m\<close>, its fields are the odd-rounded
  requests. The instances checked below are \<open>Maze(4, 6)\<close>, of width 5 and height 7, and
  \<open>Maze(5, 5)\<close>, of width 5 and height 5.
\<close>

theorem Maze_init_dimensions:
  "Maze_init w0 h0 r = Inr (m, r') \<Longrightarrow>
     width m = (if even w0 then w0 + 1 else w0) \<and>
     height m = (if even h0 then h0 + 1 else h0)"
  by (auto simp: Maze_init_def generate_def Let_def split: sum.splits if_splits)

theorem Maze_init_dimensions_witness:
  "(\<exists>m r'. Maze_init 4 6 rng0 = Inr (m, r') \<and> width m = 5 \<and> height m = 7) \<and>
   (\<exists>m r'. Maze_init 5 5 rng0 = Inr (m, r') \<and> width m = 5 \<and> height m = 5)"
proof -
  have "\<not> isl (Maze_init 4 6 rng0)" by code_simp
  then obtain m r' where eq: "Maze_init 4 6 rng0 = Inr (m, r')"
    by (cases "Maze_init 4 6 rng0") auto
  from Maze_init_dimensions[OF eq] have a: "width m = 5 \<and> height m = 7" by simp
  have "\<not> isl (Maze_init 5 5 rng0)" by code_simp
  then obtain m' r'' where eq': "Maze_init 5 5 rng0 = Inr (m', r'')"
    by (cases "Maze_init 5 5 rng0") auto
  from Maze_init_dimensions[OF eq'] have "width m' = 5 \<and> height m' = 5" by simp
  with eq eq' a show ?thesis by blast
qed

text \<open>
  C3. A requested size whose odd-rounded width or height is 1 should generate without any
  out-of-range grid access. The code does not: the first statement of \<open>_generate\<close> writes
  \<open>grid[1][1]\<close> without a bound check, and in a grid one cell wide (or one cell high) that
  index does not exist, so \<open>Maze(1, 5)\<close> and \<open>Maze(1, 1)\<close> raise \<open>IndexError\<close> whatever
  the random generator holds.
\<close>

theorem Maze_init_width_one_raises:
  "Maze_init 1 5 r = Inl IndexError \<and> Maze_init 1 1 r = Inl IndexError"
  by (simp add: Maze_init_def generate_def grid_set_def py_index_def Let_def eval_nat_numeral)

section \<open>The solver on a single cell\<close>

text \<open>
  C8. For every maze and every cell \<open>c\<close>, \<open>solve(c, c)\<close> returns the dictionary with the
  single entry \<open>c: None\<close>, and \<open>reconstruct_path\<close> on that dictionary with goal \<open>c\<close>
  returns the one-element path \<open>[c]\<close>.
\<close>

theorem solve_start_is_goal:
  "solve m c c = Inr [(c, None)] \<and> reconstruct_path [(c, None)] c = Some (Inr [c])"
  by (simp add: solve_def reconstruct_path_def walk_back.simps)

section \<open>Frame properties of handle\_input\<close>

text \<open>
  C7. Pressing \<open>s\<close> (code 115) or \<open>S\<close> (code 83) in any game state flips the
  solution-visibility flag and nothing else: the maze, the player position, the goal and the
  cached path are those of before, the random generator is untouched, and the key is
  handled without running the solver (the result is defined for every game state, also one
  on which the solver would raise). The program then waits for the next key, in the main
  loop or, when the player stands on the goal, in the win screen.
\<close>

theorem toggle_flips_flag_only:
  "(handle_input [115] g r = Some (Returned True (g\<lparr>show_solution := \<not> show_solution g\<rparr>) r [])
    \<or> handle_input [115] g r = Some (Waiting Won (g\<lparr>show_solution := \<not> show_solution g\<rparr>) r))
   \<and> (handle_input [83] g r = Some (Returned True (g\<lparr>show_solution := \<not> show_solution g\<rparr>) r [])
    \<or> handle_input [83] g r = Some (Waiting Won (g\<lparr>show_solution := \<not> show_solution g\<rparr>) r))"
  by (simp add: handle_input_def keymap_def check_win_def
        KEY_UP_def KEY_DOWN_def KEY_LEFT_def KEY_RIGHT_def)




section \<open>The generated maze is perfect\<close>

text \<open>
  C1. For every request whose odd-rounded width and height are at least 3 and every state of
  the random generator, the constructor returns a maze, and the passage cells of that maze
  with the four-directional adjacency form a tree: every passage cell is reached from
  \<open>(1, 1)\<close> by a walk through passage cells, the number of passage cells is the number of
  adjacencies between passage cells plus one, and any two passage cells are joined by exactly
  one simple path.
\<close>

theorem generated_maze_is_perfect:
  assumes "3 \<le> (if w0 mod 2 = 0 then w0 + 1 else w0)"
    and "3 \<le> (if h0 mod 2 = 0 then h0 + 1 else h0)"
  shows "\<exists>m r'. Maze_init w0 h0 r = Inr (m, r') \<and>
     (\<forall>c \<in> passage_cells m. \<exists>p. walk_in (passage_cells m) p \<and> hd p = (1, 1) \<and> last p = c) \<and>
     card (passage_cells m) = card (edges_of (passage_cells m)) + 1 \<and>
     (\<forall>a \<in> passage_cells m. \<forall>b \<in> passage_cells m. \<exists>!p. simple_path (passage_cells m) a b p)"
proof -
  from assms have "2 \<le> w0" "2 \<le> h0" by presburger+
  from Maze_init_inv[OF this, of r] obtain m r' where
    m: "Maze_init w0 h0 r = Inr (m, r')" and "gen_inv (width m) (height m) (grid m) []"
    by blast
  then have t: "tree (passage_cells m)" and s: "(1, 1) \<in> passage_cells m"
    by (simp_all add: gen_inv_def passage_cells_pcells)
  from t have "card (passage_cells m) = card (edges_of (passage_cells m)) + 1"
    and "\<forall>a \<in> passage_cells m. \<forall>b \<in> passage_cells m. \<exists>!p. simple_path (passage_cells m) a b p"
    by (simp_all add: tree_def)
  moreover have "\<forall>c \<in> passage_cells m. \<exists>p. walk_in (passage_cells m) p \<and> hd p = (1, 1) \<and> last p = c"
    using tree_reachable[OF t s] by blast
  ultimately show ?thesis using m by blast
qed

theorem generated_maze_is_perfect_witness:
  "\<exists>m r'. Maze_init 4 6 rng0 = Inr (m, r') \<and>
     (\<forall>c \<in> passage_cells m. \<exists>p. walk_in (passage_cells m) p \<and> hd p = (1, 1) \<and> last p = c) \<and>
     card (passage_cells m) = card (edges_of (passage_cells m)) + 1 \<and>
     (\<forall>a \<in> passage_cells m. \<forall>b \<in> passage_cells m. \<exists>!p. simple_path (passage_cells m) a b p)"
  by (rule generated_maze_is_perfect) simp_all

section \<open>Moves read inside the grid\<close>

text \<open>
  C10. In every reachable game state the grid has \<open>height\<close> rows of \<open>width\<close> cells, every
  cell on the outer boundary (\<open>x = 0\<close>, \<open>x = width - 1\<close>, \<open>y = 0\<close> or \<open>y = height - 1\<close>) is
  a wall, and the player stands on a passage cell with \<open>1 \<le> x \<le> width - 2\<close> and
  \<open>1 \<le> y \<le> height - 2\<close>. Hence the read \<open>grid[new_y][new_x]\<close> that \<open>handle_input\<close> makes
  without a bound check, for each of the four arrow keys, has both indices inside the grid and
  returns a value. (Every game the constructor builds has width and height at least 3.)
\<close>

theorem reachable_states_in_bounds:
  assumes "reachable g"
  shows "int (length (grid (maze g))) = height (maze g) \<and>
         (\<forall>row \<in> set (grid (maze g)). int (length row) = width (maze g)) \<and>
         (\<forall>c \<in> cells_of (maze g).
             fst c = 0 \<or> fst c = width (maze g) - 1 \<or> snd c = 0 \<or> snd c = height (maze g) - 1
             \<longrightarrow> grid_get (grid (maze g)) (snd c) (fst c) = Inr 1) \<and>
         grid_get (grid (maze g)) (snd (player_pos g)) (fst (player_pos g)) = Inr 0 \<and>
         1 \<le> fst (player_pos g) \<and> fst (player_pos g) \<le> width (maze g) - 2 \<and>
         1 \<le> snd (player_pos g) \<and> snd (player_pos g) \<le> height (maze g) - 2 \<and>
         (\<forall>key dx dy. keymap key = Some (dx, dy) \<longrightarrow>
             0 \<le> fst (player_pos g) + dx \<and> fst (player_pos g) + dx < width (maze g) \<and>
             0 \<le> snd (player_pos g) + dy \<and> snd (player_pos g) + dy < height (maze g) \<and>
             (\<exists>v. grid_get (grid (maze g)) (snd (player_pos g) + dy) (fst (player_pos g) + dx)
                    = Inr v))"
proof -
  from assms have inv: "game_inv g" by (rule reachable_inv)
  then have "grid_ok (width (maze g)) (height (maze g)) (grid (maze g))"
    by (simp add: game_inv_def gen_inv_def)
  then have 1: "int (length (grid (maze g))) = height (maze g)"
    and 2: "\<forall>row \<in> set (grid (maze g)). int (length row) = width (maze g)"
    by (simp_all add: grid_ok_def)
  have 3: "\<forall>c \<in> cells_of (maze g).
             fst c = 0 \<or> fst c = width (maze g) - 1 \<or> snd c = 0 \<or> snd c = height (maze g) - 1
             \<longrightarrow> grid_get (grid (maze g)) (snd c) (fst c) = Inr 1"
    using border_is_wall[OF inv] by blast
  from inv have 4: "grid_get (grid (maze g)) (snd (player_pos g)) (fst (player_pos g)) = Inr 0"
    by (simp add: game_inv_def passage_cells_def)
  from player_interior[OF inv] have 5: "1 \<le> fst (player_pos g)"
    "fst (player_pos g) \<le> width (maze g) - 2"
    "1 \<le> snd (player_pos g)" "snd (player_pos g) \<le> height (maze g) - 2"
    by (simp_all add: interior_def)
  from 1 2 3 4 5 move_read_in_range[OF inv] show ?thesis by blast
qed

theorem reachable_states_in_bounds_witness:
  "reachable game_5x5_moved \<and>
   grid_get (grid (maze game_5x5_moved)) 0 3 = Inr 1 \<and>
   grid_get (grid (maze game_5x5_moved)) 2 1 = Inr 0 \<and>
   (\<exists>v. grid_get (grid (maze game_5x5_moved)) (2 + 0) (1 + - 1) = Inr v)"
proof -
  note r = reachable_game_5x5_moved
  note t = reachable_states_in_bounds[OF r]
  have c: "(3, 0) \<in> cells_of (maze game_5x5_moved)"
    by (simp add: cells_of_def game_5x5_moved_def game_5x5_def)
  from t c have "grid_get (grid (maze game_5x5_moved)) (snd (3, 0)) (fst (3, 0)) = Inr 1"
    by (elim conjE, drule_tac x = "(3, 0)" in bspec) simp_all
  moreover from t have "grid_get (grid (maze game_5x5_moved)) (snd (player_pos game_5x5_moved))
       (fst (player_pos game_5x5_moved)) = Inr 0" by blast
  moreover have "keymap KEY_LEFT = Some (-1, 0)"
    by (simp add: keymap_def KEY_LEFT_def KEY_UP_def KEY_DOWN_def)
  with t have "\<exists>v. grid_get (grid (maze game_5x5_moved)) (snd (player_pos game_5x5_moved) + 0)
       (fst (player_pos game_5x5_moved) + - 1) = Inr v" by blast
  ultimately show ?thesis using r by (simp add: game_5x5_moved_def game_5x5_def)
qed

section \<open>The solver\<close>

text \<open>
  C5. For every well-formed maze and all cells \<open>start\<close> and \<open>goal\<close>, \<open>solve\<close> returns
  normally, and the dictionary it returns is empty exactly when the goal is not reachable from
  the start by steps onto adjacent passage cells, that is, when the search never discovers it.
\<close>

theorem solve_empty_iff_unreachable:
  assumes "well_formed m"
  shows "\<exists>P. solve m start goal = Inr P \<and>
             (P = [] \<longleftrightarrow> \<not> (\<exists>p. route m p \<and> hd p = start \<and> last p = goal))"
proof -
  from solve_exit[OF assms, where goal = goal and start = start] obtain P' q' d' where
    inv: "bfs_inv m start goal d' q' P'" and ex: "q' = [] \<or> hd q' = goal"
    and s: "solve m start goal = Inr (if goal \<in> dom (map_of P') then P' else [])" by blast
  from inv have "map_of P' start = Some None" unfolding bfs_inv_def by blast
  then have "P' \<noteq> []" by auto
  show ?thesis
  proof (cases "goal \<in> dom (map_of P')")
    case True
    with bfs_found_iff[OF inv ex] have "\<exists>p. route m p \<and> hd p = start \<and> last p = goal" by blast
    with True s \<open>P' \<noteq> []\<close> show ?thesis by simp
  next
    case False
    with bfs_found_iff[OF inv ex] have "\<not> (\<exists>p. route m p \<and> hd p = start \<and> last p = goal)" by blast
    with False s show ?thesis by simp
  qed
qed

theorem solve_empty_iff_unreachable_witness:
  "well_formed maze_split \<and> solve maze_split (1, 1) (3, 3) = Inr [] \<and>
   \<not> (\<exists>p. route maze_split p \<and> hd p = (1, 1) \<and> last p = (3, 3))"
proof -
  have wf: "well_formed maze_split"
    by (simp add: well_formed_def grid_ok_def maze_split_def)
  have s: "solve maze_split (1, 1) (3, 3) = Inr []"
    by code_simp
  from solve_empty_iff_unreachable[OF wf, of "(1, 1)" "(3, 3)"] s
  have "\<not> (\<exists>p. route maze_split p \<and> hd p = (1, 1) \<and> last p = (3, 3))" by simp
  with wf s show ?thesis by blast
qed

text \<open>
  C2. For every well-formed maze and all passage cells \<open>start\<close> and \<open>goal\<close> with the goal
  reachable from the start, \<open>solve\<close> followed by \<open>reconstruct_path\<close> returns a path that
  begins with the start, ends with the goal, steps only between adjacent passage cells, and
  whose length is the shortest-path distance between the two cells plus one. The search run
  without the early exit yields the same path.
\<close>

theorem solve_finds_shortest_path:
  assumes wf: "well_formed m"
    and sp: "start \<in> passage_cells m" and gp: "goal \<in> passage_cells m"
    and reach: "\<exists>p. walk_in (passage_cells m) p \<and> hd p = start \<and> last p = goal"
  shows "\<exists>P path Pf. solve m start goal = Inr P \<and> reconstruct_path P goal = Some (Inr path) \<and>
           hd path = start \<and> last path = goal \<and> walk_in (passage_cells m) path \<and>
           length path = shortest_distance (passage_cells m) start goal + 1 \<and>
           solve_no_exit m start goal = Inr Pf \<and> reconstruct_path Pf goal = Some (Inr path)"
proof -
  let ?V = "passage_cells m"
  from solve_exit[OF wf, where goal = goal and start = start] obtain P' q' d' where
    l: "solve_loop m goal [start] [(start, None)] = Inr P'"
    and inv: "bfs_inv m start goal d' q' P'" and ex: "q' = [] \<or> hd q' = goal"
    and s: "solve m start goal = Inr (if goal \<in> dom (map_of P') then P' else [])" by blast
  from reach have "\<exists>p. route m p \<and> hd p = start \<and> last p = goal"
    by (auto dest: walk_in_route)
  with bfs_found_iff[OF inv ex] have g: "goal \<in> dom (map_of P')" by simp
  from bfs_found_queue[OF inv ex g] have q: "q' \<noteq> []" "hd q' = goal" by simp_all
  from bfs_chain[OF inv g] obtain p where
    p: "route m p" "hd p = start" "last p = goal" "length p = d' goal + 1"
    and wb: "\<And>acc. walk_back P' (Some goal) acc = Some (Inr (acc @ rev p))" by blast
  have rp: "reconstruct_path P' goal = Some (Inr p)"
    by (simp add: reconstruct_path_def wb)
  have w: "walk_in ?V p" using p sp by (auto intro: route_walk_in)
  have least: "d' goal \<le> k"
    if "\<exists>p'. walk_in ?V p' \<and> hd p' = start \<and> last p' = goal \<and> length p' = k + 1" for k
  proof (rule ccontr)
    assume "\<not> d' goal \<le> k"
    from that obtain p' where p': "walk_in ?V p'" "hd p' = start" "last p' = goal"
      "length p' = k + 1" by blast
    with \<open>\<not> d' goal \<le> k\<close> have "length p' \<le> d' (hd q') + 1" by (simp add: q)
    from bfs_route_bound[OF inv q(1) walk_in_route[OF p'(1)] p'(2) this] p'(3,4)
    have "d' goal \<le> k" by simp
    with \<open>\<not> d' goal \<le> k\<close> show False by simp
  qed
  have "shortest_distance ?V start goal = d' goal"
    unfolding shortest_distance_def
  proof (rule Least_equality)
    show "\<exists>pa. walk_in ?V pa \<and> hd pa = start \<and> last pa = goal \<and> length pa = d' goal + 1"
      using w p by blast
  next
    fix k assume "\<exists>p. walk_in ?V p \<and> hd p = start \<and> last p = goal \<and> length p = k + 1"
    then show "d' goal \<le> k" by (rule least)
  qed
  with p have "length p = shortest_distance ?V start goal + 1" by simp
  moreover from s g have "solve m start goal = Inr P'" by simp
  moreover from solve_loop_continues[OF wf l] obtain Pf where
    lf: "solve_loop_no_exit m [start] [(start, None)] = Inr Pf"
    and ext: "\<forall>v \<in> dom (map_of P'). map_of Pf v = map_of P' v" by blast
  from ext g have "map_of Pf goal \<noteq> None" by auto
  with lf have "solve_no_exit m start goal = Inr Pf" by (simp add: solve_no_exit_def)
  moreover have "reconstruct_path Pf goal = Some (Inr p)"
    using walk_back_agree[OF inv ext g, of "[]"] rp by (simp add: reconstruct_path_def)
  ultimately show ?thesis using rp p w by blast
qed

theorem solve_finds_shortest_path_witness:
  "well_formed (maze game_5x5) \<and>
   (1, 1) \<in> passage_cells (maze game_5x5) \<and> (3, 3) \<in> passage_cells (maze game_5x5) \<and>
   walk_in (passage_cells (maze game_5x5)) [(1, 1), (1, 2), (1, 3), (2, 3), (3, 3)] \<and>
   solve (maze game_5x5) (1, 1) (3, 3) =
     Inr [((1, 1), None), ((1, 2), Some (1, 1)), ((1, 3), Some (1, 2)),
          ((2, 3), Some (1, 3)), ((3, 3), Some (2, 3))] \<and>
   reconstruct_path [((1, 1), None), ((1, 2), Some (1, 1)), ((1, 3), Some (1, 2)),
                     ((2, 3), Some (1, 3)), ((3, 3), Some (2, 3))] (3, 3) =
     Some (Inr [(1, 1), (1, 2), (1, 3), (2, 3), (3, 3)]) \<and>
   shortest_distance (passage_cells (maze game_5x5)) (1, 1) (3, 3) = 4"
proof -
  let ?m = "maze game_5x5"
  let ?P = "[((1, 1), None), ((1, 2), Some (1, 1)), ((1, 3), Some (1, 2)),
             ((2, 3), Some (1, 3)), ((3, 3), Some (2, 3))] :: preds"
  have wf: "well_formed ?m"
    by (simp add: well_formed_def grid_ok_def game_5x5_def)
  have a: "(1, 1) \<in> passage_cells ?m" and b: "(3, 3) \<in> passage_cells ?m"
    by (simp_all add: passage_cells_def cells_of_def game_5x5_def grid_get_def py_index_def)
  have w: "walk_in (passage_cells ?m) [(1, 1), (1, 2), (1, 3), (2, 3), (3, 3)]"
    by (simp add: walk_in_def adjacent_def passage_cells_def cells_of_def game_5x5_def
          grid_get_def py_index_def)
  then have r: "\<exists>p. walk_in (passage_cells ?m) p \<and> hd p = (1, 1) \<and> last p = (3, 3)"
    by (intro exI[of _ "[(1, 1), (1, 2), (1, 3), (2, 3), (3, 3)]"]) simp
  have s: "solve ?m (1, 1) (3, 3) = Inr ?P"
    by code_simp
  have p: "reconstruct_path ?P (3, 3) = Some (Inr [(1, 1), (1, 2), (1, 3), (2, 3), (3, 3)])"
    by code_simp
  from solve_finds_shortest_path[OF wf a b r] s p
  have "shortest_distance (passage_cells ?m) (1, 1) (3, 3) = 4" by auto
  with wf a b w s p show ?thesis by blast
qed

section \<open>Determinism\<close>




end
